theory Spec2Isabelle
  imports Complex_Main "HOL-Library.Sublist" "HOL-Library.Product_Lexorder" "HOL-Library.Multiset"
begin

section \<open>The traffic adjustment engine of \<open>api/traffic.py\<close>\<close>

text \<open>
  A shallow embedding of class \<open>TrafficData\<close>. Conventions of the model:
  \<^item> Python and pandas floats are exact rationals (\<open>rat\<close>); NaN and the infinities are not
    values of the model, so a count is always a finite number.
  \<^item> What the libraries leave open is a parameter of the model: the order in which pandas'
    \<open>sort_values\<close> lists rows of equal date, and the side on which the binary float of
    a mean falls when the exact mean is halfway between two decimals.
  \<^item> The string functions are written for any type of characters and any tables of
    \<open>str.upper\<close>, \<open>str.isspace\<close> and the regular expression class \<open>\w\<close> (a \<open>char_db\<close>). The
    engine is evaluated on \<open>string\<close> with the ASCII part of these tables (\<open>ascii_chars\<close>),
    where a character outside ASCII is left alone by \<open>upper\<close> and is neither a space nor a
    word character; \<open>latin1_chars\<close> are the tables of Python for the code points below 256.
  \<^item> A \<open>dict\<close> whose order matters (the street index is iterated) is an association list
    in insertion order.
\<close>

subsection \<open>Characters and the string methods used by the source\<close>

definition is_space :: "char \<Rightarrow> bool" where
  \<comment> \<open>\<open>str.isspace\<close> and the class \<open>\s\<close> on ASCII: TAB, LF, VT, FF, CR, FS, GS, RS, US, SPACE\<close>
  "is_space c = (of_char c \<in> {9, 10, 11, 12, 13, 28, 29, 30, 31, 32 :: nat})"

definition is_word :: "char \<Rightarrow> bool" where
  \<comment> \<open>the class \<open>\w\<close> on ASCII: letters, digits and the underscore\<close>
  "is_word c = (let n = of_char c :: nat in
     (48 \<le> n \<and> n \<le> 57) \<or> (65 \<le> n \<and> n \<le> 90) \<or> n = 95 \<or> (97 \<le> n \<and> n \<le> 122))"

definition is_AZ09 :: "char \<Rightarrow> bool" where
  \<comment> \<open>the class \<open>[A-Z0-9]\<close>\<close>
  "is_AZ09 c = (let n = of_char c :: nat in (48 \<le> n \<and> n \<le> 57) \<or> (65 \<le> n \<and> n \<le> 90))"

definition is_AZ09s :: "char \<Rightarrow> bool" where
  \<comment> \<open>the class \<open>[A-Z0-9\s]\<close>\<close>
  "is_AZ09s c = (is_AZ09 c \<or> is_space c)"

definition to_upper :: "char \<Rightarrow> char" where
  "to_upper c = (let n = of_char c :: nat in if 97 \<le> n \<and> n \<le> 122 then char_of (n - 32) else c)"

text \<open>
  The tables of the Python library that the string methods consult, for characters of
  type \<open>'c\<close>: \<open>db_upper\<close> is \<open>str.upper\<close> on one character (it may give several), \<open>db_space\<close> is
  \<open>str.isspace\<close> (also the class \<open>\s\<close>), \<open>db_word\<close> is the class \<open>\w\<close>, and \<open>db_ascii\<close> gives the
  character that an ASCII character of the program text stands for.
\<close>

record 'c char_db =
  db_upper :: "'c \<Rightarrow> 'c list"
  db_space :: "'c \<Rightarrow> bool"
  db_word :: "'c \<Rightarrow> bool"
  db_ascii :: "char \<Rightarrow> 'c"

definition ascii_chars :: "char char_db" where
  "ascii_chars = \<lparr>db_upper = (\<lambda>c. [to_upper c]), db_space = is_space, db_word = is_word, db_ascii = (\<lambda>c. c)\<rparr>"

definition latin1_upper :: "nat \<Rightarrow> nat list" where
  \<comment> \<open>\<open>chr(n).upper()\<close> for \<open>n < 256\<close>: sharp s gives \<open>SS\<close>, micro and y with diaeresis leave Latin-1\<close>
  "latin1_upper n =
     (if 97 \<le> n \<and> n \<le> 122 then [n - 32]
      else if n = 181 then [924]
      else if n = 223 then [83, 83]
      else if 224 \<le> n \<and> n \<le> 254 \<and> n \<noteq> 247 then [n - 32]
      else if n = 255 then [376]
      else [n])"

definition latin1_space :: "nat \<Rightarrow> bool" where
  "latin1_space n = (n \<in> {9, 10, 11, 12, 13, 28, 29, 30, 31, 32, 133, 160})"

definition latin1_word :: "nat \<Rightarrow> bool" where
  \<comment> \<open>the alphanumeric code points below 256, the underscore, and the two capitals above 255
      that \<open>latin1_upper\<close> produces\<close>
  "latin1_word n =
     ((48 \<le> n \<and> n \<le> 57) \<or> (65 \<le> n \<and> n \<le> 90) \<or> n = 95 \<or> (97 \<le> n \<and> n \<le> 122)
      \<or> n \<in> {170, 178, 179, 181, 185, 186, 188, 189, 190}
      \<or> (192 \<le> n \<and> n \<le> 255 \<and> n \<noteq> 215 \<and> n \<noteq> 247) \<or> n = 376 \<or> n = 924)"

definition latin1_chars :: "nat char_db" where
  "latin1_chars = \<lparr>db_upper = latin1_upper, db_space = latin1_space, db_word = latin1_word, db_ascii = of_char\<rparr>"

definition literal :: "'c char_db \<Rightarrow> string \<Rightarrow> 'c list" where
  \<comment> \<open>a string literal of the program\<close>
  "literal db w = map (db_ascii db) w"

definition upper_with :: "'c char_db \<Rightarrow> 'c list \<Rightarrow> 'c list" where
  "upper_with db s = concat (map (db_upper db) s)"

definition strip_with :: "'c char_db \<Rightarrow> 'c list \<Rightarrow> 'c list" where
  "strip_with db s = rev (dropWhile (db_space db) (rev (dropWhile (db_space db) s)))"

text \<open>\<open>s.split()\<close>: the maximal runs of non-space characters.\<close>

function split_with :: "'c char_db \<Rightarrow> 'c list \<Rightarrow> 'c list list" where
  "split_with db s =
     (case dropWhile (db_space db) s of
        [] \<Rightarrow> []
      | c # cs \<Rightarrow> (c # takeWhile (\<lambda>x. \<not> db_space db x) cs)
                  # split_with db (dropWhile (\<lambda>x. \<not> db_space db x) cs))"
  by pat_completeness auto
termination
proof (relation "measure (\<lambda>(db, s). length s)", goal_cases)
  case 1
  show ?case by simp
next
  case (2 db s c cs)
  have "length (dropWhile (\<lambda>x. \<not> db_space db x) cs) \<le> length cs"
    by (rule length_dropWhile_le)
  moreover have "length (dropWhile (db_space db) s) \<le> length s"
    by (rule length_dropWhile_le)
  ultimately show ?case using 2 by simp
qed

fun join :: "'a list \<Rightarrow> 'a list list \<Rightarrow> 'a list" where
  "join sep [] = []"
| "join sep [w] = w"
| "join sep (w # ws) = w @ sep @ join sep ws"

definition upper :: "string \<Rightarrow> string" where
  "upper s = upper_with ascii_chars s"

definition strip :: "string \<Rightarrow> string" where
  "strip s = strip_with ascii_chars s"

text \<open>\<open>a in b\<close> on strings: \<open>a\<close> occurs in \<open>b\<close> as a contiguous substring.\<close>

fun py_in :: "string \<Rightarrow> string \<Rightarrow> bool" where
  "py_in a [] = (a = [])"
| "py_in a (c # cs) = (prefix a (c # cs) \<or> py_in a cs)"


subsection \<open>\<open>_normalize_street_name\<close>\<close>

text \<open>
  \<open>re.sub(rf'\b{full}\b', abbrev, name)\<close> for a literal \<open>full\<close>, scanning from the left.
  \<open>prev\<close> says whether the character before the current position is a word character
  (\<open>False\<close> at the start of the string). \<open>\b\<close> holds between two positions of which
  exactly one is a word character, the outside of the string counting as none.
\<close>

definition at_boundary :: "'c char_db \<Rightarrow> bool \<Rightarrow> 'c list \<Rightarrow> bool" where
  "at_boundary db prev rest = (prev \<noteq> (case rest of [] \<Rightarrow> False | d # _ \<Rightarrow> db_word db d))"

function re_sub_word :: "'c char_db \<Rightarrow> 'c list \<Rightarrow> 'c list \<Rightarrow> bool \<Rightarrow> 'c list \<Rightarrow> 'c list" where
  "re_sub_word db full abbrev prev [] = []"
| "re_sub_word db full abbrev prev (c # cs) =
     (if full \<noteq> [] \<and> prefix full (c # cs) \<and> at_boundary db prev (c # cs)
         \<and> at_boundary db (db_word db (last full)) (drop (length full) (c # cs))
      then abbrev @ re_sub_word db full abbrev (db_word db (last full)) (drop (length full) (c # cs))
      else c # re_sub_word db full abbrev (db_word db c) cs)"
  by pat_completeness auto
termination
  by (relation "measure (\<lambda>(db, full, abbrev, prev, s). length s)") (auto simp: prefix_def)

definition abbreviations :: "(string \<times> string) list" where
  "abbreviations =
     [(''STREET'', ''ST''), (''AVENUE'', ''AV''), (''BOULEVARD'', ''BL''), (''DRIVE'', ''DR''),
      (''ROAD'', ''RD''), (''LANE'', ''LN''), (''COURT'', ''CT''), (''PLACE'', ''PL''),
      (''HIGHWAY'', ''HW''), (''FREEWAY'', ''FW'')]"

definition sub_abbreviations :: "'c char_db \<Rightarrow> 'c list \<Rightarrow> 'c list" where
  \<comment> \<open>the loop \<open>for full, abbrev in abbreviations.items()\<close>\<close>
  "sub_abbreviations db name =
     fold (\<lambda>(full, abbrev) n. re_sub_word db (literal db full) (literal db abbrev) False n)
       abbreviations name"

definition normalize_with :: "'c char_db \<Rightarrow> 'c list \<Rightarrow> 'c list" where
  \<comment> \<open>\<open>_normalize_street_name\<close> over the tables \<open>db\<close>\<close>
  "normalize_with db street_name =
     (if street_name = [] then []
      else join (literal db '' '')
             (split_with db (sub_abbreviations db (strip_with db (upper_with db street_name)))))"

definition normalize_street_name :: "string \<Rightarrow> string" where
  "normalize_street_name street_name = normalize_with ascii_chars street_name"

subsection \<open>\<open>_extract_street_from_instruction\<close>\<close>

text \<open>
  The fragment of Python's regular expressions that the three patterns use, with the
  backtracking order of \<open>re\<close>: \<open>rx_match r s\<close> lists every way \<open>r\<close> matches a prefix of \<open>s\<close>,
  the preferred one first, each as the text captured by the (single) group and the rest
  of the input. \<open>Lits\<close> is an alternation of literals, tried from left to right; \<open>Plus\<close>
  is a greedy and \<open>LazyPlus\<close> a lazy \<open>+\<close> on a character class.
\<close>

datatype rx =
    Lits "string list"
  | Plus "char \<Rightarrow> bool"
  | LazyPlus "char \<Rightarrow> bool"
  | Seq rx rx
  | Group rx

fun rx_match :: "rx \<Rightarrow> string \<Rightarrow> (string option \<times> string) list" where
  "rx_match (Lits ws) s = map (\<lambda>w. (None, drop (length w) s)) (filter (\<lambda>w. prefix w s) ws)"
| "rx_match (Plus P) s = map (\<lambda>k. (None, drop k s)) (rev [1 ..< Suc (length (takeWhile P s))])"
| "rx_match (LazyPlus P) s = map (\<lambda>k. (None, drop k s)) [1 ..< Suc (length (takeWhile P s))]"
| "rx_match (Seq a b) s =
     concat (map (\<lambda>(g, t). map (\<lambda>(h, u). (case g of None \<Rightarrow> h | Some x \<Rightarrow> Some x, u)) (rx_match b t))
                 (rx_match a s))"
| "rx_match (Group a) s = map (\<lambda>(g, t). (Some (take (length s - length t) s), t)) (rx_match a s)"

text \<open>
  \<open>re.findall\<close> for a pattern with at most one group: the leftmost match at each position,
  the scan resuming where the match ended. None of the three patterns matches the empty
  string; the test \<open>length t < length s\<close> only makes the scan total.
\<close>

function findall :: "rx \<Rightarrow> string \<Rightarrow> string list" where
  "findall r [] = []"
| "findall r (c # cs) =
     (case rx_match r (c # cs) of
        [] \<Rightarrow> findall r cs
      | (g, t) # _ \<Rightarrow>
          if length t < length (c # cs)
          then (case g of None \<Rightarrow> take (length (c # cs) - length t) (c # cs) | Some x \<Rightarrow> x) # findall r t
          else findall r cs)"
  by pat_completeness auto
termination
  by (relation "measure (\<lambda>(r, s). length s)") auto

definition suffixes_rx :: rx where
  \<comment> \<open>\<open>(?:ST|AV|BL|DR|RD|LN|CT|PL|HW|FW)\<close>\<close>
  "suffixes_rx = Lits [''ST'', ''AV'', ''BL'', ''DR'', ''RD'', ''LN'', ''CT'', ''PL'', ''HW'', ''FW'']"

definition patterns :: "rx list" where
  "patterns =
     [Seq (Lits [''ONTO'', ''ON'', ''TO'']) (Seq (Plus is_space)
        (Seq (Group (LazyPlus is_AZ09s)) (Seq (Plus is_space) suffixes_rx))),
      Seq (Lits [''VIA'', ''TAKE'']) (Seq (Plus is_space)
        (Seq (Group (LazyPlus is_AZ09s)) (Seq (Plus is_space) suffixes_rx))),
      Group (Seq (Plus is_AZ09) (Seq (Plus is_space) suffixes_rx))]"

text \<open>
  \<open>list(set(cleaned))\<close>: the distinct elements. Python does not fix the order in which a
  set is iterated; the model lists them in the order of their first occurrence.
\<close>

fun unique :: "'a list \<Rightarrow> 'a list" where
  "unique [] = []"
| "unique (x # xs) = x # unique (filter (\<lambda>y. y \<noteq> x) xs)"

definition extract_street_from_instruction :: "string \<Rightarrow> string list" where
  "extract_street_from_instruction instruction =
     (if instruction = [] then []
      else let streets = concat (map (\<lambda>pattern. findall pattern (upper instruction)) patterns);
               cleaned = filter (\<lambda>normalized. normalized \<noteq> [] \<and> length normalized > 2)
                           (map normalize_street_name streets)
           in unique cleaned)"

subsection \<open>The dataset and \<open>_load_data\<close>\<close>

text \<open>
  What \<open>pd.read_csv\<close> delivers: \<open>None\<close> for the whole table when reading raises, and per
  row the street name as a string, the count if it parses as a number and the date if
  it parses as a date (an integer time stamp). The \<open>limits\<close> column is cleaned by the
  source and never read again; it is left out.
\<close>

record raw_row =
  raw_street_name :: string
  raw_total_count :: "rat option"
  raw_date_count :: "int option"

record raw_table =
  has_street_name :: bool
  has_total_count :: bool
  has_date_column :: bool
  raw_rows :: "raw_row list"

record traffic_row =
  street_name :: string
  total_count :: rat
  date_count :: "int option"

record dataframe =
  has_date_count :: bool
  df_rows :: "traffic_row list"

definition empty_frame :: dataframe where
  \<comment> \<open>\<open>pd.DataFrame()\<close>\<close>
  "empty_frame = \<lparr>has_date_count = False, df_rows = []\<rparr>"

definition df_empty :: "dataframe \<Rightarrow> bool" where
  "df_empty df = (df_rows df = [])"

definition clean_row :: "raw_row \<Rightarrow> traffic_row" where
  "clean_row r =
     \<lparr>street_name = strip (upper (raw_street_name r)),
      total_count = (case raw_total_count r of None \<Rightarrow> 0 | Some n \<Rightarrow> n),
      date_count = raw_date_count r\<rparr>"

definition load_data :: "raw_table option \<Rightarrow> dataframe" where
  "load_data csv =
     (case csv of
        None \<Rightarrow> empty_frame
      | Some t \<Rightarrow>
          if \<not> (has_street_name t \<and> has_total_count t) then empty_frame
          else \<lparr>has_date_count = has_date_column t, df_rows = map clean_row (raw_rows t)\<rparr>)"

subsection \<open>\<open>_build_street_index\<close>\<close>

record index_entry =
  avg_count :: rat
  max_count :: rat
  min_count :: rat
  sample_size :: nat

definition mean :: "rat list \<Rightarrow> rat" where
  \<comment> \<open>every call is on a non-empty list\<close>
  "mean xs = sum_list xs / of_nat (length xs)"

definition date_key :: "traffic_row \<Rightarrow> bool \<times> int" where
  \<comment> \<open>descending by date, rows without a date last\<close>
  "date_key r = (case date_count r of None \<Rightarrow> (True, 0) | Some d \<Rightarrow> (False, - d))"

text \<open>
  \<open>sort_values('date_count', ascending=False)\<close> is pandas' sort with its default algorithm,
  which does not fix the order of rows of equal date. The builder takes it as the
  parameter \<open>sort_values\<close>; \<open>stable_sort_values\<close> is the one that keeps such rows in their old
  order.
\<close>

type_synonym sorter = "traffic_row list \<Rightarrow> traffic_row list"

definition stable_sort_values :: sorter where
  "stable_sort_values street_data = sort_key date_key street_data"


definition build_entry :: "sorter \<Rightarrow> bool \<Rightarrow> traffic_row list \<Rightarrow> index_entry" where
  "build_entry sort_values has_date street_data =
     \<lparr>avg_count = (if has_date then mean (map total_count (take 3 (sort_values street_data)))
                   else mean (map total_count street_data)),
      max_count = Max (set (map total_count street_data)),
      min_count = Min (set (map total_count street_data)),
      sample_size = length street_data\<rparr>"

definition build_street_index :: "sorter \<Rightarrow> dataframe \<Rightarrow> (string \<times> index_entry) list" where
  "build_street_index sort_values df =
     (if df_empty df then []
      else map (\<lambda>name. (name, build_entry sort_values (has_date_count df)
                                  (filter (\<lambda>r. street_name r = name) (df_rows df))))
               (unique (map street_name (df_rows df))))"

record traffic_data =
  traffic_df :: dataframe
  street_index :: "(string \<times> index_entry) list"

definition init :: "sorter \<Rightarrow> raw_table option \<Rightarrow> traffic_data" where
  \<comment> \<open>\<open>__init__\<close>\<close>
  "init sort_values csv =
     (let df = load_data csv in \<lparr>traffic_df = df, street_index = build_street_index sort_values df\<rparr>)"

subsection \<open>\<open>get_traffic_count\<close> and \<open>get_traffic_level\<close>\<close>

datatype tier = very_low | low | moderate | high | very_high

datatype level = Tier tier | unknown

definition TRAFFIC_THRESHOLDS :: "tier \<Rightarrow> rat option" where
  \<comment> \<open>\<open>None\<close> is \<open>float('inf')\<close>\<close>
  "TRAFFIC_THRESHOLDS t =
     (case t of very_low \<Rightarrow> Some 3000 | low \<Rightarrow> Some 8000 | moderate \<Rightarrow> Some 15000
              | high \<Rightarrow> Some 25000 | very_high \<Rightarrow> None)"

definition CONGESTION_MULTIPLIERS :: "tier \<Rightarrow> rat" where
  "CONGESTION_MULTIPLIERS t =
     (case t of very_low \<Rightarrow> 90 / 100 | low \<Rightarrow> 95 / 100 | moderate \<Rightarrow> 1
              | high \<Rightarrow> 115 / 100 | very_high \<Rightarrow> 130 / 100)"

definition below :: "rat \<Rightarrow> rat option \<Rightarrow> bool" where
  \<comment> \<open>\<open>count < threshold\<close>\<close>
  "below c threshold = (case threshold of None \<Rightarrow> True | Some b \<Rightarrow> c < b)"

definition get_traffic_count :: "traffic_data \<Rightarrow> string \<Rightarrow> rat option" where
  "get_traffic_count td name =
     (if df_empty (traffic_df td) then None
      else let normalized = normalize_street_name name in
        case map_of (street_index td) normalized of
          Some e \<Rightarrow> Some (avg_count e)
        | None \<Rightarrow>
            let matches = map (\<lambda>(indexed_street, data). avg_count data)
                            (filter (\<lambda>(indexed_street, data).
                                 py_in normalized indexed_street \<or> py_in indexed_street normalized)
                               (street_index td))
            in if matches \<noteq> [] then Some (sum_list matches / of_nat (length matches)) else None)"

definition get_traffic_level :: "traffic_data \<Rightarrow> string \<Rightarrow> level \<times> rat \<times> rat option" where
  "get_traffic_level td name =
     (case get_traffic_count td name of
        None \<Rightarrow> (unknown, 1, None)
      | Some c \<Rightarrow>
          let lv = (if below c (TRAFFIC_THRESHOLDS very_low) then very_low
                    else if below c (TRAFFIC_THRESHOLDS low) then low
                    else if below c (TRAFFIC_THRESHOLDS moderate) then moderate
                    else if below c (TRAFFIC_THRESHOLDS high) then high
                    else very_high)
          in (Tier lv, CONGESTION_MULTIPLIERS lv, Some c))"

subsection \<open>\<open>calculate_route_adjustment\<close>\<close>

text \<open>A step is a dictionary; only its \<open>instruction\<close> entry is read, and it may be absent.\<close>

record step =
  instruction :: "string option"

datatype confidence = conf_low | conf_medium | conf_high

record street_detail =
  d_street :: string
  d_level :: level
  d_multiplier :: rat
  d_count :: "rat option"

record adjustment =
  multiplier :: rat
  confidence :: confidence
  streets_matched :: nat
  street_details :: "street_detail list"

definition round_half_even :: "rat \<Rightarrow> int" where
  \<comment> \<open>\<open>round(x, 0)\<close>: the nearest integer, a tie going to the even one\<close>
  "round_half_even x =
     (let f = \<lfloor>x\<rfloor>; d = x - of_int f
      in if d < 1 / 2 then f else if 1 / 2 < d then f + 1 else if even f then f else f + 1)"

text \<open>
  \<open>round(avg_multiplier, 3)\<close> rounds the binary float that the division produced, not the
  exact mean. The float differs from the mean by far less than the distance of a mean of
  table multipliers to the next halfway point (for any route of fewer than a million
  contributions), so the result is the multiple of \<open>0.001\<close> nearest to the mean; only when
  the mean is exactly halfway does the float decide, and it can fall on either side
  (\<open>0.9, 0.9, 0.9, 0.95\<close> has mean \<open>0.9125\<close> and float mean \<open>0.9125000000000001\<close>). The side is
  the parameter \<open>up\<close>.
\<close>

definition round_nearest :: "bool \<Rightarrow> rat \<Rightarrow> int" where
  "round_nearest up x =
     (let f = \<lfloor>x\<rfloor>; d = x - of_int f
      in if d < 1 / 2 then f else if 1 / 2 < d then f + 1 else if up then f + 1 else f)"

definition py_round :: "bool \<Rightarrow> rat \<Rightarrow> nat \<Rightarrow> rat" where
  \<comment> \<open>\<open>round(x, ndigits)\<close> on the float of \<open>x\<close>\<close>
  "py_round up x ndigits = of_int (round_nearest up (x * 10 ^ ndigits)) / 10 ^ ndigits"

type_synonym tie_side = "rat list \<Rightarrow> bool"

definition no_match :: adjustment where
  "no_match = \<lparr>multiplier = 1, confidence = conf_low, streets_matched = 0, street_details = []\<rparr>"

definition visit_street :: "traffic_data \<Rightarrow> string \<Rightarrow> rat list \<times> street_detail list \<Rightarrow> rat list \<times> street_detail list" where
  \<comment> \<open>the body of \<open>for street in streets\<close>, on the two accumulators\<close>
  "visit_street td street acc =
     (case acc of (multipliers, details) \<Rightarrow>
        case get_traffic_level td street of (lv, mul, cnt) \<Rightarrow>
          if lv \<noteq> unknown
          then (multipliers @ [mul],
                details @ [\<lparr>d_street = street, d_level = lv, d_multiplier = mul, d_count = cnt\<rparr>])
          else (multipliers, details))"

definition get_instruction :: "step \<Rightarrow> string" where
  \<comment> \<open>\<open>step.get('instruction', '')\<close>\<close>
  "get_instruction st = (case instruction st of None \<Rightarrow> [] | Some i \<Rightarrow> i)"

definition visit_step :: "traffic_data \<Rightarrow> step \<Rightarrow> rat list \<times> street_detail list \<Rightarrow> rat list \<times> street_detail list" where
  \<comment> \<open>the body of \<open>for step in route_steps\<close>\<close>
  "visit_step td st acc =
     (let streets = extract_street_from_instruction (get_instruction st)
      in fold (visit_street td) streets acc)"

definition calculate_route_adjustment :: "tie_side \<Rightarrow> traffic_data \<Rightarrow> step list \<Rightarrow> adjustment" where
  \<comment> \<open>\<open>float_up multipliers\<close>: the side of the float mean of these multipliers at a tie\<close>
  "calculate_route_adjustment float_up td route_steps =
     (if route_steps = [] then no_match
      else case fold (visit_step td) route_steps ([], []) of (multipliers, details) \<Rightarrow>
        if multipliers = [] then no_match
        else let avg_multiplier = sum_list multipliers / of_nat (length multipliers);
                 conf = (if length multipliers \<ge> 5 then conf_high
                         else if length multipliers \<ge> 2 then conf_medium
                         else conf_low)
             in \<lparr>multiplier = py_round (float_up multipliers) avg_multiplier 3, confidence = conf,
                 streets_matched = length multipliers, street_details = details\<rparr>)"

subsection \<open>\<open>search_streets\<close> and \<open>get_stats\<close>\<close>





record stats =
  total_records :: nat
  unique_streets :: nat
  avg_traffic_count :: int
  max_traffic_count :: int
  min_traffic_count :: int
  earliest :: "int option option"
  latest :: "int option option"

datatype stats_result = no_data | Stats stats

definition dates_of :: "dataframe \<Rightarrow> int list" where
  "dates_of df = concat (map (\<lambda>r. case date_count r of None \<Rightarrow> [] | Some d \<Rightarrow> [d]) (df_rows df))"

definition get_stats :: "traffic_data \<Rightarrow> stats_result" where
  \<comment> \<open>in \<open>date_range\<close>, \<open>None\<close> is Python's \<open>None\<close> and \<open>Some None\<close> is \<open>NaT\<close>\<close>
  "get_stats td =
     (let df = traffic_df td in
      if df_empty df then no_data
      else Stats
        \<lparr>total_records = length (df_rows df),
         unique_streets = length (street_index td),
         avg_traffic_count = round_half_even (mean (map total_count (df_rows df))),
         max_traffic_count = round_half_even (Max (set (map total_count (df_rows df)))),
         min_traffic_count = round_half_even (Min (set (map total_count (df_rows df)))),
         earliest = (if has_date_count df
                     then Some (if dates_of df = [] then None else Some (Min (set (dates_of df))))
                     else None),
         latest = (if has_date_count df
                   then Some (if dates_of df = [] then None else Some (Max (set (dates_of df))))
                   else None)\<rparr>)"

subsection \<open>The route calculation as the specification words it\<close>

text \<open>
  The classifications that contribute to a route: every candidate of every step, in step
  order, classified, those of level \<open>unknown\<close> left out. A candidate that two steps extract
  is listed twice.
\<close>

definition contributing :: "traffic_data \<Rightarrow> step list \<Rightarrow> (string \<times> level \<times> rat \<times> rat option) list" where
  "contributing td route_steps =
     filter (\<lambda>(street, lv, mul, cnt). lv \<noteq> unknown)
       (map (\<lambda>street. (street, get_traffic_level td street))
          (concat (map (\<lambda>st. extract_street_from_instruction (get_instruction st)) route_steps)))"

definition contributing_multipliers :: "traffic_data \<Rightarrow> step list \<Rightarrow> rat list" where
  "contributing_multipliers td route_steps = map (\<lambda>(street, lv, mul, cnt). mul) (contributing td route_steps)"


subsection \<open>Auxiliary functions of the proofs about the normalizer\<close>

text \<open>
  A string read as words (maximal runs of word characters) and the characters between
  them: \<open>tokmap db g\<close> replaces every word \<open>w\<close> by \<open>g w\<close>. \<open>abbreviate\<close> is the replacement that
  one entry of \<open>abbreviations\<close> stands for, \<open>table\<close> the entries as strings of \<open>db\<close>, and
  \<open>collapse\<close> is \<open>' '.join(name.split())\<close>.
\<close>

definition wordy :: "'c char_db \<Rightarrow> 'c list \<Rightarrow> bool" where
  "wordy db w = (\<forall>c \<in> set w. db_word db c)"

function tokmap :: "'c char_db \<Rightarrow> ('c list \<Rightarrow> 'c list) \<Rightarrow> 'c list \<Rightarrow> 'c list" where
  "tokmap db g s =
     g (takeWhile (db_word db) s)
     @ (case dropWhile (db_word db) s of [] \<Rightarrow> [] | c # r \<Rightarrow> c # tokmap db g r)"
  by pat_completeness auto
termination
proof (relation "measure (\<lambda>(db, g, s). length s)", goal_cases)
  case 1
  show ?case by simp
next
  case (2 db g s c r)
  have "length (dropWhile (db_word db) s) \<le> length s" by (rule length_dropWhile_le)
  then show ?case using 2 by simp
qed

definition abbreviate :: "'a list \<times> 'a list \<Rightarrow> 'a list \<Rightarrow> 'a list" where
  "abbreviate p w = (if w = fst p then snd p else w)"

definition table :: "'c char_db \<Rightarrow> ('c list \<times> 'c list) list" where
  "table db = map (\<lambda>(full, abbrev). (literal db full, literal db abbrev)) abbreviations"

definition blank :: "'c char_db \<Rightarrow> 'c" where
  "blank db = db_ascii db CHR '' ''"

definition collapse :: "'c char_db \<Rightarrow> 'c list \<Rightarrow> 'c list" where
  "collapse db s = join [blank db] (split_with db s)"

definition capitals :: string where
  "capitals = ''ABCDEFGHIJKLMNOPQRSTUVWXYZ''"

text \<open>
  What the proof of idempotence needs of the tables, all of which holds of the tables of
  Python 3: upper-casing an upper-cased character changes nothing, no white space is a
  word character, the capital letters are word characters that \<open>upper\<close> leaves alone, and the
  blank is white space that \<open>upper\<close> leaves alone.
\<close>

definition consistent :: "'c char_db \<Rightarrow> bool" where
  "consistent db =
     ((\<forall>c. \<forall>d \<in> set (db_upper db c). db_upper db d = [d])
      \<and> (\<forall>c. db_space db c \<longrightarrow> \<not> db_word db c)
      \<and> (\<forall>c \<in> set capitals. db_word db (db_ascii db c) \<and> db_upper db (db_ascii db c) = [db_ascii db c])
      \<and> db_space db (db_ascii db CHR '' '') \<and> db_upper db (db_ascii db CHR '' '') = [db_ascii db CHR '' ''])"

subsection \<open>Example data\<close>

definition example_table :: raw_table where
  "example_table =
     \<lparr>has_street_name = True, has_total_count = True, has_date_column = False,
      raw_rows =
        [\<lparr>raw_street_name = ''Main St'', raw_total_count = Some 5000, raw_date_count = None\<rparr>,
         \<lparr>raw_street_name = ''ELM AV'', raw_total_count = Some 20000, raw_date_count = None\<rparr>,
         \<lparr>raw_street_name = ''OAK DR'', raw_total_count = Some 8000, raw_date_count = None\<rparr>,
         \<lparr>raw_street_name = ''PINE BL'', raw_total_count = Some 25000, raw_date_count = None\<rparr>]\<rparr>"

definition example_data :: traffic_data where
  "example_data = init stable_sort_values (Some example_table)"

definition two_streets :: traffic_data where
  \<comment> \<open>the index \<open>{MAIN ST: 5000, ELM AV: 20000}\<close>\<close>
  "two_streets = init stable_sort_values (Some (example_table \<lparr>raw_rows := take 2 (raw_rows example_table)\<rparr>))"

definition raw :: "string \<Rightarrow> rat \<Rightarrow> int option \<Rightarrow> raw_row" where
  "raw name n d = \<lparr>raw_street_name = name, raw_total_count = Some n, raw_date_count = d\<rparr>"



definition street_and_st_table :: raw_table where
  "street_and_st_table =
     \<lparr>has_street_name = True, has_total_count = True, has_date_column = False,
      raw_rows = [raw ''Main Street'' 5000 None, raw ''Main St'' 7000 None]\<rparr>"

definition boulevard_table :: raw_table where
  "boulevard_table =
     \<lparr>has_street_name = True, has_total_count = True, has_date_column = False,
      raw_rows = [raw ''Sunset Boulevard'' 30000 None]\<rparr>"



definition main_then_elm :: "step list" where
  "main_then_elm = [\<lparr>instruction = Some ''Main St''\<rparr>, \<lparr>instruction = Some ''Elm Av''\<rparr>]"

section \<open>Properties\<close>

subsection \<open>The classifier\<close>

text \<open>
  C4. Whenever the lookup finds a count, \<open>get_traffic_level\<close> returns it with the tier of
  the half-open intervals: below 3000 \<open>very_low\<close>, from 3000 and below 8000 \<open>low\<close>, from
  8000 and below 15000 \<open>moderate\<close>, from 15000 and below 25000 \<open>high\<close>, from 25000 on
  \<open>very_high\<close>; and with the multiplier of that tier: 0.90, 0.95, 1.00, 1.15, 1.30.
\<close>

theorem get_traffic_level_thresholds:
  assumes "get_traffic_count td name = Some c"
  shows "(c < 3000 \<longrightarrow> get_traffic_level td name = (Tier very_low, 90 / 100, Some c))
       \<and> (3000 \<le> c \<and> c < 8000 \<longrightarrow> get_traffic_level td name = (Tier low, 95 / 100, Some c))
       \<and> (8000 \<le> c \<and> c < 15000 \<longrightarrow> get_traffic_level td name = (Tier moderate, 1, Some c))
       \<and> (15000 \<le> c \<and> c < 25000 \<longrightarrow> get_traffic_level td name = (Tier high, 115 / 100, Some c))
       \<and> (25000 \<le> c \<longrightarrow> get_traffic_level td name = (Tier very_high, 130 / 100, Some c))"
  using assms
  by (simp add: get_traffic_level_def below_def TRAFFIC_THRESHOLDS_def CONGESTION_MULTIPLIERS_def)

theorem get_traffic_level_thresholds_witness:
  "get_traffic_count example_data ''Oak Drive'' = Some 8000
   \<and> get_traffic_level example_data ''Oak Drive'' = (Tier moderate, 1, Some 8000)
   \<and> get_traffic_count example_data ''pine bl'' = Some 25000
   \<and> get_traffic_level example_data ''pine bl'' = (Tier very_high, 130 / 100, Some 25000)"
proof -
  have oak: "get_traffic_count example_data ''Oak Drive'' = Some 8000"
    by code_simp
  have pine: "get_traffic_count example_data ''pine bl'' = Some 25000"
    by code_simp
  show ?thesis
    using oak pine get_traffic_level_thresholds [OF oak] get_traffic_level_thresholds [OF pine]
    by simp
qed

subsection \<open>Strings\<close>

lemma py_in_sublist: "py_in a b \<longleftrightarrow> sublist a b"
proof (induction b)
  case Nil
  show ?case by simp
next
  case (Cons c cs)
  show ?case
  proof (cases a)
    case Nil
    then show ?thesis by simp
  next
    case (Cons x xs)
    then show ?thesis using Cons.IH by (simp add: sublist_code)
  qed
qed

subsection \<open>Rounding and means\<close>

lemma round_nearest_cases:
  "round_nearest up x = \<lfloor>x\<rfloor> \<or> (round_nearest up x = \<lfloor>x\<rfloor> + 1 \<and> 1 / 2 \<le> x - of_int \<lfloor>x\<rfloor>)"
  by (auto simp: round_nearest_def Let_def)

lemma round_nearest_lower:
  assumes "of_int a \<le> x"
  shows "a \<le> round_nearest up x"
proof -
  have "a \<le> \<lfloor>x\<rfloor>" using assms by (simp add: le_floor_iff)
  then show ?thesis using round_nearest_cases [of up x] by linarith
qed

lemma round_nearest_upper:
  assumes "x \<le> of_int b"
  shows "round_nearest up x \<le> b"
proof -
  have fl: "\<lfloor>x\<rfloor> \<le> b" using assms by (simp add: floor_le_iff)
  show ?thesis
  proof (cases "round_nearest up x = \<lfloor>x\<rfloor>")
    case True
    then show ?thesis using fl by simp
  next
    case False
    then have r: "round_nearest up x = \<lfloor>x\<rfloor> + 1" and d: "1 / 2 \<le> x - of_int \<lfloor>x\<rfloor>"
      using round_nearest_cases [of up x] by auto
    have "of_int \<lfloor>x\<rfloor> < x" using d by linarith
    then have "of_int \<lfloor>x\<rfloor> < (of_int b :: rat)" using assms by linarith
    then have "\<lfloor>x\<rfloor> < b" by simp
    then show ?thesis using r by simp
  qed
qed

lemma round_nearest_close: "\<bar>of_int (round_nearest up x) - x\<bar> \<le> 1 / 2"
proof -
  have "of_int \<lfloor>x\<rfloor> \<le> x" "x < of_int \<lfloor>x\<rfloor> + 1" by linarith+
  then show ?thesis
    by (auto simp: round_nearest_def Let_def abs_le_iff)
qed

lemma round_nearest_unique:
  assumes "\<bar>of_int k - x\<bar> < 1 / 2"
  shows "round_nearest up x = k"
proof -
  have "\<bar>of_int (round_nearest up x) - x\<bar> \<le> 1 / 2" by (rule round_nearest_close)
  with assms have "\<bar>(of_int (round_nearest up x) :: rat) - of_int k\<bar> < 1" by linarith
  then have "\<bar>(of_int (round_nearest up x - k) :: rat)\<bar> < of_int 1" by simp
  then have "\<bar>round_nearest up x - k\<bar> < 1" by (simp only: of_int_abs [symmetric] of_int_less_iff)
  then show ?thesis by linarith
qed

lemma py_round_3_bounds:
  assumes "90 / 100 \<le> x" "x \<le> 130 / 100"
  shows "90 / 100 \<le> py_round up x 3 \<and> py_round up x 3 \<le> 130 / 100"
proof -
  have "of_int 900 \<le> x * 1000" using assms by simp
  then have lo: "900 \<le> round_nearest up (x * 1000)" by (rule round_nearest_lower)
  have "x * 1000 \<le> of_int 1300" using assms by simp
  then have hi: "round_nearest up (x * 1000) \<le> 1300" by (rule round_nearest_upper)
  have "(of_int 900 :: rat) \<le> of_int (round_nearest up (x * 1000))"
    using lo by (simp only: of_int_le_iff)
  moreover have "(of_int (round_nearest up (x * 1000)) :: rat) \<le> of_int 1300"
    using hi by (simp only: of_int_le_iff)
  ultimately show ?thesis by (simp add: py_round_def)
qed

lemma py_round_3_close: "\<bar>py_round up x 3 - x\<bar> \<le> 1 / 2000"
proof -
  have "\<bar>of_int (round_nearest up (x * 1000)) - x * 1000\<bar> \<le> 1 / 2"
    by (rule round_nearest_close)
  then show ?thesis by (simp add: py_round_def abs_le_iff field_simps)
qed

lemma py_round_3_unique:
  assumes "\<bar>of_int k / 1000 - x\<bar> < 1 / 2000"
  shows "py_round up x 3 = of_int k / 1000"
proof -
  have "\<bar>of_int k - x * 1000\<bar> < 1 / 2"
    using assms by (simp add: abs_less_iff field_simps)
  then have "round_nearest up (x * 1000) = k" by (rule round_nearest_unique)
  then show ?thesis by (simp add: py_round_def)
qed

lemma sum_list_bounds:
  fixes xs :: "rat list"
  assumes "\<forall>x \<in> set xs. a \<le> x \<and> x \<le> b"
  shows "a * of_nat (length xs) \<le> sum_list xs \<and> sum_list xs \<le> b * of_nat (length xs)"
  using assms by (induction xs) (auto simp: algebra_simps)

lemma mean_bounds:
  fixes xs :: "rat list"
  assumes "xs \<noteq> []" "\<forall>x \<in> set xs. a \<le> x \<and> x \<le> b"
  shows "a \<le> sum_list xs / of_nat (length xs) \<and> sum_list xs / of_nat (length xs) \<le> b"
proof -
  have pos: "(0::rat) < of_nat (length xs)" using assms(1) by simp
  show ?thesis
    using sum_list_bounds [OF assms(2)] pos by (simp add: pos_le_divide_eq pos_divide_le_eq)
qed

subsection \<open>The route adjustment\<close>

lemma CONGESTION_MULTIPLIERS_range:
  "90 / 100 \<le> CONGESTION_MULTIPLIERS t \<and> CONGESTION_MULTIPLIERS t \<le> 130 / 100"
  by (cases t) (simp_all add: CONGESTION_MULTIPLIERS_def)

lemma CONGESTION_MULTIPLIERS_table:
  "CONGESTION_MULTIPLIERS t \<in> {90 / 100, 95 / 100, 1, 115 / 100, 130 / 100}"
  by (cases t) (simp_all add: CONGESTION_MULTIPLIERS_def)

lemma get_traffic_level_shape:
  "get_traffic_level td name = (lv, m, c) \<Longrightarrow> lv \<noteq> unknown \<Longrightarrow>
     \<exists>t. lv = Tier t \<and> m = CONGESTION_MULTIPLIERS t"
  by (auto simp: get_traffic_level_def Let_def split: option.splits)

lemma contributing_shape:
  assumes "(street, lv, m, c) \<in> set (contributing td steps)"
  shows "\<exists>t. lv = Tier t \<and> m = CONGESTION_MULTIPLIERS t"
proof -
  from assms have "get_traffic_level td street = (lv, m, c)" and "lv \<noteq> unknown"
    by (auto simp: contributing_def)
  then show ?thesis by (rule get_traffic_level_shape)
qed

lemma contributing_multipliers_range:
  "\<forall>m \<in> set (contributing_multipliers td steps). 90 / 100 \<le> m \<and> m \<le> 130 / 100"
  using contributing_shape CONGESTION_MULTIPLIERS_range
  by (fastforce simp: contributing_multipliers_def)

lemma contributing_append:
  "contributing td (xs @ ys) = contributing td xs @ contributing td ys"
  by (simp add: contributing_def)

lemma fold_visit_street:
  "fold (visit_street td) streets (ms, ds) =
     (ms @ map (\<lambda>(street, lv, mul, cnt). mul)
            (filter (\<lambda>(street, lv, mul, cnt). lv \<noteq> unknown) (map (\<lambda>street. (street, get_traffic_level td street)) streets)),
      ds @ map (\<lambda>(street, lv, mul, cnt). \<lparr>d_street = street, d_level = lv, d_multiplier = mul, d_count = cnt\<rparr>)
            (filter (\<lambda>(street, lv, mul, cnt). lv \<noteq> unknown) (map (\<lambda>street. (street, get_traffic_level td street)) streets)))"
proof (induction streets arbitrary: ms ds)
  case Nil
  show ?case by simp
next
  case (Cons x xs)
  obtain lv mul cnt where g: "get_traffic_level td x = (lv, mul, cnt)"
    by (cases "get_traffic_level td x") auto
  have step: "visit_street td x (ms, ds) =
      (if lv \<noteq> unknown
       then (ms @ [mul], ds @ [\<lparr>d_street = x, d_level = lv, d_multiplier = mul, d_count = cnt\<rparr>])
       else (ms, ds))"
    by (simp add: visit_street_def g)
  show ?case
    by (simp add: step g Cons.IH)
qed

lemma fold_visit_step:
  "fold (visit_step td) steps (ms, ds) =
     (ms @ contributing_multipliers td steps,
      ds @ map (\<lambda>(street, lv, mul, cnt). \<lparr>d_street = street, d_level = lv, d_multiplier = mul, d_count = cnt\<rparr>)
            (contributing td steps))"
proof (induction steps arbitrary: ms ds)
  case Nil
  show ?case by (simp add: contributing_def contributing_multipliers_def)
next
  case (Cons st steps)
  have "fold (visit_step td) (st # steps) (ms, ds) =
        fold (visit_step td) steps (fold (visit_street td) (extract_street_from_instruction (get_instruction st)) (ms, ds))"
    by (simp add: visit_step_def)
  also have "\<dots> = (ms @ contributing_multipliers td (st # steps),
      ds @ map (\<lambda>(street, lv, mul, cnt). \<lparr>d_street = street, d_level = lv, d_multiplier = mul, d_count = cnt\<rparr>)
            (contributing td (st # steps)))"
    unfolding fold_visit_street Cons.IH
    by (simp add: contributing_def contributing_multipliers_def)
  finally show ?case .
qed



lemma contributing_Nil: "contributing td [] = []"
  by (simp add: contributing_def)

lemma calculate_route_adjustment_eq:
  "calculate_route_adjustment float_up td steps =
     (let ms = contributing_multipliers td steps in
      if ms = [] then no_match
      else \<lparr>multiplier = py_round (float_up ms) (sum_list ms / of_nat (length ms)) 3,
            confidence = (if length ms \<ge> 5 then conf_high else if length ms \<ge> 2 then conf_medium else conf_low),
            streets_matched = length ms,
            street_details = map (\<lambda>(street, lv, mul, cnt). \<lparr>d_street = street, d_level = lv, d_multiplier = mul, d_count = cnt\<rparr>)
            (contributing td steps)\<rparr>)"
proof (cases "steps = []")
  case True
  then show ?thesis
    by (simp add: calculate_route_adjustment_def contributing_multipliers_def contributing_Nil)
next
  case False
  have f: "fold (visit_step td) steps ([], []) =
     (contributing_multipliers td steps,
      map (\<lambda>(street, lv, mul, cnt). \<lparr>d_street = street, d_level = lv, d_multiplier = mul, d_count = cnt\<rparr>)
            (contributing td steps))"
    using fold_visit_step [of td steps "[]" "[]"] by simp
  show ?thesis
    using False by (simp add: calculate_route_adjustment_def f Let_def)
qed

lemma extract_empty: "extract_street_from_instruction [] = []"
  by (simp add: extract_street_from_instruction_def)

lemma adjustment_of_no_steps: "calculate_route_adjustment float_up td [] = no_match"
  by (simp add: calculate_route_adjustment_def)

text \<open>
  C1. When at least one candidate of the route classifies to a tier, the multiplier of
  \<open>calculate_route_adjustment\<close> is the arithmetic mean of the multipliers of all
  contributing classifications, rounded to 3 decimals: it is a multiple of 1/1000, at
  most 1/2000 away from the mean, and it is every multiple of 1/1000 that is less than
  1/2000 away from the mean. The contributions of a route are listed step by step, so a
  street that two steps extract counts twice. With the index \<open>{MAIN ST: 5000, ELM AV: 20000}\<close>
  and the steps \<open>Main St\<close> and \<open>Elm Av\<close>, the two steps extract exactly these streets, the
  multipliers are 0.95 and 1.15 and the result is 1.05.
\<close>

theorem route_multiplier_is_rounded_mean:
  "(contributing td steps \<noteq> [] \<longrightarrow>
      (let ms = contributing_multipliers td steps;
           avg = sum_list ms / of_nat (length ms);
           m = multiplier (calculate_route_adjustment float_up td steps)
       in (\<exists>k::int. m = of_int k / 1000) \<and> \<bar>m - avg\<bar> \<le> 1 / 2000
          \<and> (\<forall>k::int. \<bar>of_int k / 1000 - avg\<bar> < 1 / 2000 \<longrightarrow> m = of_int k / 1000)))
   \<and> contributing_multipliers td (steps @ steps)
       = contributing_multipliers td steps @ contributing_multipliers td steps
   \<and> map (\<lambda>(k, e). (k, avg_count e)) (street_index two_streets) = [(''MAIN ST'', 5000), (''ELM AV'', 20000)]
   \<and> map (\<lambda>st. extract_street_from_instruction (get_instruction st)) main_then_elm = [[''MAIN ST''], [''ELM AV'']]
   \<and> contributing_multipliers two_streets main_then_elm = [95 / 100, 115 / 100]
   \<and> multiplier (calculate_route_adjustment float_up two_streets main_then_elm) = 105 / 100"
proof -
  have general: "contributing td steps \<noteq> [] \<longrightarrow>
      (let ms = contributing_multipliers td steps;
           avg = sum_list ms / of_nat (length ms);
           m = multiplier (calculate_route_adjustment float_up td steps)
       in (\<exists>k::int. m = of_int k / 1000) \<and> \<bar>m - avg\<bar> \<le> 1 / 2000
          \<and> (\<forall>k::int. \<bar>of_int k / 1000 - avg\<bar> < 1 / 2000 \<longrightarrow> m = of_int k / 1000))"
  proof
    assume "contributing td steps \<noteq> []"
    then have ne: "contributing_multipliers td steps \<noteq> []"
      by (simp add: contributing_multipliers_def)
    let ?ms = "contributing_multipliers td steps"
    let ?avg = "sum_list ?ms / of_nat (length ?ms)"
    have m: "multiplier (calculate_route_adjustment float_up td steps) = py_round (float_up ?ms) ?avg 3"
      using ne by (simp add: calculate_route_adjustment_eq Let_def)
    have "py_round (float_up ?ms) ?avg 3 = of_int (round_nearest (float_up ?ms) (?avg * 1000)) / 1000"
      by (simp add: py_round_def)
    then have a: "\<exists>k::int. py_round (float_up ?ms) ?avg 3 = of_int k / 1000"
      by blast
    have b: "\<bar>py_round (float_up ?ms) ?avg 3 - ?avg\<bar> \<le> 1 / 2000"
      by (rule py_round_3_close)
    have c: "\<forall>k::int. \<bar>of_int k / 1000 - ?avg\<bar> < 1 / 2000
               \<longrightarrow> py_round (float_up ?ms) ?avg 3 = of_int k / 1000"
      using py_round_3_unique by blast
    show "let ms = contributing_multipliers td steps;
           avg = sum_list ms / of_nat (length ms);
           m = multiplier (calculate_route_adjustment float_up td steps)
       in (\<exists>k::int. m = of_int k / 1000) \<and> \<bar>m - avg\<bar> \<le> 1 / 2000
          \<and> (\<forall>k::int. \<bar>of_int k / 1000 - avg\<bar> < 1 / 2000 \<longrightarrow> m = of_int k / 1000)"
      unfolding Let_def m using a b c by (intro conjI)
  qed
  have twice: "contributing_multipliers td (steps @ steps)
       = contributing_multipliers td steps @ contributing_multipliers td steps"
    by (simp add: contributing_multipliers_def contributing_append)
  have idx: "map (\<lambda>(k, e). (k, avg_count e)) (street_index two_streets) = [(''MAIN ST'', 5000), (''ELM AV'', 20000)]"
    by code_simp
  have ext: "map (\<lambda>st. extract_street_from_instruction (get_instruction st)) main_then_elm = [[''MAIN ST''], [''ELM AV'']]"
    by code_simp
  have ms: "contributing_multipliers two_streets main_then_elm = [95 / 100, 115 / 100]"
    by code_simp
  have "\<bar>of_int 1050 / 1000 - (105 / 100 :: rat)\<bar> < 1 / 2000"
    by simp
  then have "py_round (float_up [95 / 100, 115 / 100]) (105 / 100) 3 = of_int 1050 / 1000"
    by (rule py_round_3_unique)
  then have res: "multiplier (calculate_route_adjustment float_up two_streets main_then_elm) = 105 / 100"
    by (simp add: calculate_route_adjustment_eq ms)
  show ?thesis
    using general twice idx ext ms res by blast
qed

theorem route_multiplier_is_rounded_mean_witness:
  "contributing two_streets (main_then_elm @ main_then_elm) \<noteq> []
   \<and> contributing_multipliers two_streets (main_then_elm @ main_then_elm) = [95 / 100, 115 / 100, 95 / 100, 115 / 100]
   \<and> \<bar>of_int 1050 / 1000 - sum_list [95 / 100, 115 / 100, 95 / 100, 115 / 100 :: rat] / of_nat 4\<bar> < 1 / 2000
   \<and> multiplier (calculate_route_adjustment (\<lambda>ms. True) two_streets (main_then_elm @ main_then_elm)) = 105 / 100
   \<and> multiplier (calculate_route_adjustment (\<lambda>ms. False) two_streets (main_then_elm @ main_then_elm)) = 105 / 100"
proof -
  have ne: "contributing two_streets (main_then_elm @ main_then_elm) \<noteq> []"
    by code_simp
  have ms: "contributing_multipliers two_streets main_then_elm = [95 / 100, 115 / 100]"
    by code_simp
  have ms2: "contributing_multipliers two_streets (main_then_elm @ main_then_elm) = [95 / 100, 115 / 100, 95 / 100, 115 / 100]"
    using route_multiplier_is_rounded_mean [of two_streets main_then_elm] ms by simp
  have near: "\<bar>of_int 1050 / 1000 - sum_list [95 / 100, 115 / 100, 95 / 100, 115 / 100 :: rat] / of_nat 4\<bar> < 1 / 2000"
    by simp
  have gen: "\<forall>k::int. \<bar>of_int k / 1000 - (sum_list [95 / 100, 115 / 100, 95 / 100, 115 / 100] :: rat)
                 / of_nat (length [95 / 100, 115 / 100, 95 / 100, 115 / 100 :: rat])\<bar> < 1 / 2000
          \<longrightarrow> multiplier (calculate_route_adjustment float_up two_streets (main_then_elm @ main_then_elm))
              = of_int k / 1000" for float_up
    using route_multiplier_is_rounded_mean [of two_streets "main_then_elm @ main_then_elm" float_up] ne
    unfolding Let_def ms2 by blast
  have near': "\<bar>of_int 1050 / 1000 - (sum_list [95 / 100, 115 / 100, 95 / 100, 115 / 100] :: rat)
                 / of_nat (length [95 / 100, 115 / 100, 95 / 100, 115 / 100 :: rat])\<bar> < 1 / 2000"
    by simp
  have "multiplier (calculate_route_adjustment float_up two_streets (main_then_elm @ main_then_elm))
          = of_int 1050 / 1000" for float_up
    using gen [of float_up] near' by blast
  then show ?thesis using ne ms2 near by simp
qed

text \<open>
  C9. The confidence depends on the number \<open>n\<close> of contributing classifications only,
  which is also \<open>streets_matched\<close>: \<open>high\<close> exactly when \<open>n \<ge> 5\<close>, \<open>medium\<close> exactly when
  \<open>2 \<le> n < 5\<close>, \<open>low\<close> exactly when \<open>n < 2\<close>.
\<close>

theorem confidence_by_count:
  "(let r = calculate_route_adjustment float_up td steps; n = length (contributing td steps)
    in streets_matched r = n
       \<and> (confidence r = conf_high \<longleftrightarrow> 5 \<le> n)
       \<and> (confidence r = conf_medium \<longleftrightarrow> 2 \<le> n \<and> n < 5)
       \<and> (confidence r = conf_low \<longleftrightarrow> n < 2))"
  by (simp add: calculate_route_adjustment_eq Let_def contributing_multipliers_def no_match_def)

theorem confidence_by_count_witness:
  "length (contributing two_streets main_then_elm) = 2
   \<and> confidence (calculate_route_adjustment (\<lambda>ms. True) two_streets main_then_elm) = conf_medium
   \<and> length (contributing two_streets (main_then_elm @ main_then_elm @ main_then_elm)) = 6
   \<and> confidence (calculate_route_adjustment (\<lambda>ms. True) two_streets (main_then_elm @ main_then_elm @ main_then_elm)) = conf_high
   \<and> length (contributing two_streets (take 1 main_then_elm)) = 1
   \<and> confidence (calculate_route_adjustment (\<lambda>ms. True) two_streets (take 1 main_then_elm)) = conf_low"
proof -
  have n2: "length (contributing two_streets main_then_elm) = 2"
    by code_simp
  have n6: "length (contributing two_streets (main_then_elm @ main_then_elm @ main_then_elm)) = 6"
    using n2 by (simp add: contributing_append)
  have n1: "length (contributing two_streets (take 1 main_then_elm)) = 1"
    by code_simp
  show ?thesis
    using n2 n6 n1
      confidence_by_count [of "\<lambda>ms. True" two_streets main_then_elm]
      confidence_by_count [of "\<lambda>ms. True" two_streets "main_then_elm @ main_then_elm @ main_then_elm"]
      confidence_by_count [of "\<lambda>ms. True" two_streets "take 1 main_then_elm"]
    by (simp add: Let_def)
qed

text \<open>
  C10. For every list of steps the result is consistent: \<open>streets_matched\<close> is the length
  of \<open>street_details\<close>, every detail has a tier (never \<open>unknown\<close>) and that tier's multiplier
  from the table of five, and the route multiplier lies between 0.90 and 1.30.
\<close>

theorem adjustment_invariant:
  "(let r = calculate_route_adjustment float_up td steps
    in streets_matched r = length (street_details r)
       \<and> (\<forall>d \<in> set (street_details r).
             d_level d \<noteq> unknown
             \<and> (\<exists>t. d_level d = Tier t \<and> d_multiplier d = CONGESTION_MULTIPLIERS t)
             \<and> d_multiplier d \<in> {90 / 100, 95 / 100, 1, 115 / 100, 130 / 100})
       \<and> 90 / 100 \<le> multiplier r \<and> multiplier r \<le> 130 / 100)"
proof (cases "contributing_multipliers td steps = []")
  case True
  then show ?thesis
    by (simp add: calculate_route_adjustment_eq Let_def no_match_def)
next
  case False
  let ?ms = "contributing_multipliers td steps"
  have avg: "90 / 100 \<le> sum_list ?ms / of_nat (length ?ms) \<and> sum_list ?ms / of_nat (length ?ms) \<le> 130 / 100"
    using mean_bounds [OF False contributing_multipliers_range] .
  have mult: "90 / 100 \<le> py_round (float_up ?ms) (sum_list ?ms / of_nat (length ?ms)) 3
              \<and> py_round (float_up ?ms) (sum_list ?ms / of_nat (length ?ms)) 3 \<le> 130 / 100"
    using avg py_round_3_bounds by blast
  have det: "\<forall>x \<in> set (contributing td steps). case x of (street, lv, m, c) \<Rightarrow>
               lv \<noteq> unknown \<and> (\<exists>t. lv = Tier t \<and> m = CONGESTION_MULTIPLIERS t)
               \<and> m \<in> {90 / 100, 95 / 100, 1, 115 / 100, 130 / 100}"
  proof (clarify, intro conjI)
    fix street lv m c
    assume mem: "(street, lv, m, c) \<in> set (contributing td steps)"
    from contributing_shape [OF mem] obtain t where t: "lv = Tier t" "m = CONGESTION_MULTIPLIERS t"
      by blast
    show "lv \<noteq> unknown" using t by simp
    show "\<exists>t. lv = Tier t \<and> m = CONGESTION_MULTIPLIERS t" using t by blast
    show "m \<in> {90 / 100, 95 / 100, 1, 115 / 100, 130 / 100}"
      using t CONGESTION_MULTIPLIERS_table [of t] by simp
  qed
  show ?thesis
    using False mult det
    by (simp add: calculate_route_adjustment_eq Let_def contributing_multipliers_def split_beta)
qed

theorem adjustment_invariant_witness:
  "map d_street (street_details (calculate_route_adjustment (\<lambda>ms. True) two_streets main_then_elm)) = [''MAIN ST'', ''ELM AV'']
   \<and> streets_matched (calculate_route_adjustment (\<lambda>ms. True) two_streets main_then_elm)
       = length (street_details (calculate_route_adjustment (\<lambda>ms. True) two_streets main_then_elm))
   \<and> 90 / 100 \<le> multiplier (calculate_route_adjustment (\<lambda>ms. True) two_streets main_then_elm)
   \<and> multiplier (calculate_route_adjustment (\<lambda>ms. True) two_streets main_then_elm) \<le> 130 / 100"
proof -
  have d: "map d_street (street_details (calculate_route_adjustment (\<lambda>ms. True) two_streets main_then_elm)) = [''MAIN ST'', ''ELM AV'']"
    by code_simp
  show ?thesis
    using d adjustment_invariant [of "\<lambda>ms. True" two_streets main_then_elm] by (simp add: Let_def)
qed

subsection \<open>Names that match nothing, and empty names\<close>

lemma get_traffic_count_empty_frame:
  "df_empty (traffic_df td) \<Longrightarrow> get_traffic_count td name = None"
  by (simp add: get_traffic_count_def)

lemma get_traffic_level_of_None:
  "get_traffic_count td name = None \<Longrightarrow> get_traffic_level td name = (unknown, 1, None)"
  by (simp add: get_traffic_level_def)

lemma get_traffic_count_no_match:
  assumes "normalize_street_name name \<notin> set (map fst (street_index td))"
    and "\<forall>k \<in> set (map fst (street_index td)).
           \<not> sublist (normalize_street_name name) k \<and> \<not> sublist k (normalize_street_name name)"
  shows "get_traffic_count td name = None"
proof -
  have exact: "map_of (street_index td) (normalize_street_name name) = None"
    using assms(1) by (simp add: map_of_eq_None_iff)
  have "filter (\<lambda>(indexed_street, data).
           py_in (normalize_street_name name) indexed_street \<or> py_in indexed_street (normalize_street_name name))
          (street_index td) = []"
    using assms(2) by (auto simp: filter_empty_conv py_in_sublist)
  then show ?thesis
    by (simp add: get_traffic_count_def Let_def exact)
qed

text \<open>
  C6. A street name whose normalized form is no key of the index, is contained in no key
  and contains no key is classified \<open>(unknown, 1.0, None)\<close>. When the loaded dataset is
  empty (the file could not be read, a required column is missing, or there are no rows)
  the index is empty, \<open>get_stats\<close> answers \<open>no_data\<close> and every street name is classified
  \<open>(unknown, 1.0, None)\<close>.
\<close>

theorem unknown_when_nothing_matches:
  "(normalize_street_name name \<notin> set (map fst (street_index td))
      \<and> (\<forall>k \<in> set (map fst (street_index td)).
             \<not> sublist (normalize_street_name name) k \<and> \<not> sublist k (normalize_street_name name))
     \<longrightarrow> get_traffic_level td name = (unknown, 1, None))
   \<and> (df_empty (load_data csv)
     \<longrightarrow> street_index (init sort_values csv) = [] \<and> get_stats (init sort_values csv) = no_data
         \<and> (\<forall>any_name. get_traffic_level (init sort_values csv) any_name = (unknown, 1, None)))"
proof (intro conjI impI)
  assume "normalize_street_name name \<notin> set (map fst (street_index td))
      \<and> (\<forall>k \<in> set (map fst (street_index td)).
             \<not> sublist (normalize_street_name name) k \<and> \<not> sublist k (normalize_street_name name))"
  then have "get_traffic_count td name = None"
    using get_traffic_count_no_match by blast
  then show "get_traffic_level td name = (unknown, 1, None)"
    by (rule get_traffic_level_of_None)
next
  assume e: "df_empty (load_data csv)"
  then show "street_index (init sort_values csv) = []"
    by (simp add: init_def Let_def build_street_index_def)
  from e show "get_stats (init sort_values csv) = no_data"
    by (simp add: init_def Let_def get_stats_def)
  from e have "df_empty (traffic_df (init sort_values csv))"
    by (simp add: init_def Let_def)
  then show "\<forall>any_name. get_traffic_level (init sort_values csv) any_name = (unknown, 1, None)"
    by (simp add: get_traffic_count_empty_frame get_traffic_level_of_None)
qed

theorem unknown_when_nothing_matches_witness:
  "street_index example_data \<noteq> []
   \<and> get_traffic_level example_data ''Zebra Way'' = (unknown, 1, None)
   \<and> df_empty (load_data (Some (example_table \<lparr>raw_rows := []\<rparr>)))
   \<and> get_stats (init stable_sort_values (Some (example_table \<lparr>raw_rows := []\<rparr>))) = no_data
   \<and> get_traffic_level (init stable_sort_values (Some (example_table \<lparr>raw_rows := []\<rparr>))) ''Main St'' = (unknown, 1, None)
   \<and> get_stats (init stable_sort_values None) = no_data"
proof -
  have ne: "street_index example_data \<noteq> []"
    by code_simp
  have h1: "normalize_street_name ''Zebra Way'' \<notin> set (map fst (street_index example_data))
      \<and> (\<forall>k \<in> set (map fst (street_index example_data)).
             \<not> sublist (normalize_street_name ''Zebra Way'') k \<and> \<not> sublist k (normalize_street_name ''Zebra Way''))"
    by code_simp
  have h2: "df_empty (load_data (Some (example_table \<lparr>raw_rows := []\<rparr>)))"
    by code_simp
  have h3: "df_empty (load_data None)"
    by code_simp
  show ?thesis
    using ne h1 h2 h3
      unknown_when_nothing_matches [of "''Zebra Way''" example_data "Some (example_table \<lparr>raw_rows := []\<rparr>)" stable_sort_values]
      unknown_when_nothing_matches [of "''Zebra Way''" example_data None stable_sort_values]
    by simp
qed

text \<open>
  C3. An empty instruction yields no candidate (\<open>extract_empty\<close>) and an empty list of steps
  the identity result (\<open>adjustment_of_no_steps\<close>). An empty street name, however, is not
  classified \<open>unknown\<close> once the index has an entry: it normalizes to the empty string,
  which is contained in every key, so the substring pass of \<open>get_traffic_count\<close> averages
  the whole index. With the four streets of \<open>example_data\<close> (5000, 20000, 8000, 25000) the
  answer is \<open>moderate\<close> with count 14500; a name of one space behaves the same.
\<close>

theorem empty_street_name_is_classified:
  "street_index example_data \<noteq> []
   \<and> normalize_street_name [] = []
   \<and> get_traffic_level example_data [] = (Tier moderate, 1, Some 14500)
   \<and> normalize_street_name '' '' = []
   \<and> get_traffic_level example_data '' '' = (Tier moderate, 1, Some 14500)"
  by code_simp

subsection \<open>The street index\<close>

lemma unique_set: "set (unique xs) = set xs"
  by (induction xs rule: unique.induct) auto





lemma index_entry:
  assumes "(k, e) \<in> set (build_street_index sort_values df)"
  shows "k \<in> set (map street_name (df_rows df))"
    and "e = build_entry sort_values (has_date_count df) (filter (\<lambda>r. street_name r = k) (df_rows df))"
  using assms by (auto simp: build_street_index_def unique_set split: if_splits)





text \<open>
  C2. The index is not keyed by normalized names: the builder groups by the street name
  that the loader has upper-cased and trimmed, and never abbreviates. The raw names
  \<open>Main Street\<close> and \<open>Main St\<close> normalize to the same string \<open>MAIN ST\<close>, yet the index holds
  two entries of one row each, and the key \<open>MAIN STREET\<close> is not a normalized name. The
  lookups normalize their argument, so \<open>Main Street\<close> is answered from the rows of \<open>Main St\<close>
  (7000, not its own 5000), and in an index built from \<open>Sunset Boulevard\<close> alone that very
  name is unknown.
\<close>

theorem street_and_st_are_two_entries:
  "map raw_street_name (raw_rows street_and_st_table) = [''Main Street'', ''Main St'']
   \<and> normalize_street_name ''Main Street'' = ''MAIN ST''
   \<and> normalize_street_name ''Main St'' = ''MAIN ST''
   \<and> map fst (street_index (init stable_sort_values (Some street_and_st_table))) = [''MAIN STREET'', ''MAIN ST'']
   \<and> map (sample_size \<circ> snd) (street_index (init stable_sort_values (Some street_and_st_table))) = [1, 1]
   \<and> map (avg_count \<circ> snd) (street_index (init stable_sort_values (Some street_and_st_table))) = [5000, 7000]
   \<and> normalize_street_name ''MAIN STREET'' \<noteq> ''MAIN STREET''
   \<and> get_traffic_count (init stable_sort_values (Some street_and_st_table)) ''Main Street'' = Some 7000
   \<and> map fst (street_index (init stable_sort_values (Some boulevard_table))) = [''SUNSET BOULEVARD'']
   \<and> get_traffic_level (init stable_sort_values (Some boulevard_table)) ''Sunset Boulevard'' = (unknown, 1, None)"
  by code_simp

subsection \<open>The street search\<close>








subsection \<open>The normalizer\<close>

lemma normalize_example: "normalize_street_name '' Main   Street '' = ''MAIN ST''"
  by code_simp

lemma normalize_streetsville: "normalize_street_name ''STREETSVILLE RD'' = ''STREETSVILLE RD''"
  by code_simp

declare tokmap.simps [simp del]

declare re_sub_word.simps [simp del]

declare split_with.simps [simp del]

lemma wordy_takeWhile: "wordy db (takeWhile (db_word db) s)"
  by (auto simp: wordy_def dest: set_takeWhileD)

lemma whole_word_iff:
  assumes "wordy db full"
  shows "(prefix full s \<and> at_boundary db True (drop (length full) s))
         \<longleftrightarrow> takeWhile (db_word db) s = full"
proof
  assume h: "prefix full s \<and> at_boundary db True (drop (length full) s)"
  then obtain rest where s: "s = full @ rest" by (auto simp: prefix_def)
  from h s have "rest = [] \<or> \<not> db_word db (hd rest)"
    by (cases rest) (auto simp: at_boundary_def)
  then have "takeWhile (db_word db) rest = []"
    by (cases rest) auto
  then show "takeWhile (db_word db) s = full"
    using assms by (simp add: s wordy_def takeWhile_append2)
next
  assume t: "takeWhile (db_word db) s = full"
  have s: "s = full @ dropWhile (db_word db) s"
    using takeWhile_dropWhile_id [of "db_word db" s] t by simp
  have d: "drop (length full) s = dropWhile (db_word db) s"
    using s by (metis append_eq_conv_conj)
  have "at_boundary db True (dropWhile (db_word db) s)"
  proof (cases "dropWhile (db_word db) s")
    case Nil
    show ?thesis unfolding Nil by (simp add: at_boundary_def)
  next
    case (Cons c r)
    have "\<not> db_word db (hd (dropWhile (db_word db) s))"
      by (rule hd_dropWhile) (simp only: Cons, simp)
    then have "\<not> db_word db c" unfolding Cons by simp
    then show ?thesis unfolding Cons by (simp add: at_boundary_def)
  qed
  then show "prefix full s \<and> at_boundary db True (drop (length full) s)"
    using s d by (metis prefixI)
qed

lemma re_sub_word_tokens:
  assumes "wordy db full" "full \<noteq> []"
  shows "re_sub_word db full abbrev prev s =
           (if prev then takeWhile (db_word db) s else abbreviate (full, abbrev) (takeWhile (db_word db) s))
           @ (case dropWhile (db_word db) s of [] \<Rightarrow> [] | c # r \<Rightarrow> c # tokmap db (abbreviate (full, abbrev)) r)"
  using assms
proof (induction db full abbrev prev s rule: re_sub_word.induct)
  case (1 db full abbrev prev)
  then show ?case by (auto simp: abbreviate_def re_sub_word.simps(1))
next
  case (2 db full abbrev prev c cs)
  let ?g = "abbreviate (full, abbrev)"
  let ?s = "c # cs"
  have lw: "db_word db (last full)" and hw: "db_word db (hd full)"
    using "2.prems" by (auto simp: wordy_def)
  show ?case
  proof (cases "full \<noteq> [] \<and> prefix full ?s \<and> at_boundary db prev ?s
         \<and> at_boundary db (db_word db (last full)) (drop (length full) ?s)")
    case True
    then have pre: "prefix full ?s" and b2: "at_boundary db True (drop (length full) ?s)"
      using lw by auto
    from pre "2.prems"(2) have "c = hd full" by (cases full) auto
    then have cw: "db_word db c" using hw by simp
    with True have np: "\<not> prev" by (auto simp: at_boundary_def)
    have tw: "takeWhile (db_word db) ?s = full"
      using whole_word_iff [OF "2.prems"(1), of ?s] pre b2 by blast
    have s: "?s = full @ dropWhile (db_word db) ?s"
      using takeWhile_dropWhile_id [of "db_word db" ?s] tw by simp
    have d: "drop (length full) ?s = dropWhile (db_word db) ?s"
      using s by (metis append_eq_conv_conj)
    have t0: "takeWhile (db_word db) (dropWhile (db_word db) ?s) = []"
      by (cases "dropWhile (db_word db) ?s") (use hd_dropWhile [of "db_word db" ?s] in auto)
    have d0: "dropWhile (db_word db) (dropWhile (db_word db) ?s) = dropWhile (db_word db) ?s"
      by (cases "dropWhile (db_word db) ?s") (use hd_dropWhile [of "db_word db" ?s] in auto)
    have "re_sub_word db full abbrev prev ?s
            = abbrev @ re_sub_word db full abbrev (db_word db (last full)) (drop (length full) ?s)"
      by (subst re_sub_word.simps(2)) (simp only: True if_True simp_thms)
    also have "\<dots> = abbrev @ (case dropWhile (db_word db) ?s of [] \<Rightarrow> [] | c # r \<Rightarrow> c # tokmap db ?g r)"
      using "2.IH"(1) [OF True "2.prems"] lw by (simp only: d t0 d0 if_True append_Nil)
    finally have "re_sub_word db full abbrev prev ?s
            = abbrev @ (case dropWhile (db_word db) ?s of [] \<Rightarrow> [] | c # r \<Rightarrow> c # tokmap db ?g r)" .
    moreover have "?g full = abbrev" by (simp add: abbreviate_def)
    ultimately show ?thesis
      using np by (simp only: tw if_False)
  next
    case False
    have r: "re_sub_word db full abbrev prev ?s = c # re_sub_word db full abbrev (db_word db c) cs"
      by (subst re_sub_word.simps(2)) (simp only: False if_False)
    note ih = "2.IH"(2) [OF False "2.prems"]
    show ?thesis
    proof (cases "db_word db c")
      case cw: True
      have keep: "\<not> prev \<Longrightarrow> ?g (takeWhile (db_word db) ?s) = takeWhile (db_word db) ?s"
      proof -
        assume np: "\<not> prev"
        then have "at_boundary db prev ?s" using cw by (simp add: at_boundary_def)
        with False "2.prems"(2) lw
        have "\<not> (prefix full ?s \<and> at_boundary db True (drop (length full) ?s))"
          by auto
        then have "takeWhile (db_word db) ?s \<noteq> full"
          using whole_word_iff [OF "2.prems"(1), of ?s] by blast
        then show ?thesis by (simp add: abbreviate_def)
      qed
      show ?thesis
        using cw keep r ih by (cases prev) simp_all
    next
      case nw: False
      have "?g [] = []" using "2.prems"(2) by (auto simp: abbreviate_def)
      then show ?thesis
        using nw r ih by (simp add: tokmap.simps [of db ?g cs])
    qed
  qed
qed

lemma re_sub_word_tokmap:
  assumes "wordy db full" "full \<noteq> []"
  shows "re_sub_word db full abbrev False s = tokmap db (abbreviate (full, abbrev)) s"
  by (simp add: re_sub_word_tokens [OF assms] tokmap.simps [of db _ s])

lemma tokmap_wordy:
  assumes "wordy db u"
  shows "tokmap db g u = g u"
proof -
  have t: "takeWhile (db_word db) u = u" and d: "dropWhile (db_word db) u = []"
    using assms by (simp_all add: wordy_def)
  show ?thesis by (subst tokmap.simps) (simp only: t d list.case append_Nil2)
qed

lemma tokmap_word_sep:
  assumes "wordy db u" "\<not> db_word db c"
  shows "tokmap db g (u @ c # v) = g u @ c # tokmap db g v"
proof -
  have "takeWhile (db_word db) (u @ c # v) = u" "dropWhile (db_word db) (u @ c # v) = c # v"
    using assms by (simp_all add: wordy_def takeWhile_append2 dropWhile_append2)
  then show ?thesis by (subst tokmap.simps) simp
qed

lemma word_split:
  obtains (word) "wordy db s"
  | (sep) u c v where "s = u @ c # v" "wordy db u" "\<not> db_word db c"
proof (cases "dropWhile (db_word db) s")
  case Nil
  then have "wordy db s" by (simp add: wordy_def)
  then show ?thesis by (rule word)
next
  case (Cons c v)
  have "\<not> db_word db (hd (dropWhile (db_word db) s))"
    by (rule hd_dropWhile) (simp only: Cons, simp)
  then have c: "\<not> db_word db c" unfolding Cons by simp
  have "s = takeWhile (db_word db) s @ c # v"
    using takeWhile_dropWhile_id [of "db_word db" s] unfolding Cons by simp
  then show ?thesis
    by (rule sep [OF _ wordy_takeWhile c])
qed

lemma tokmap_compose:
  assumes "\<forall>w. wordy db w \<longrightarrow> wordy db (h w)"
  shows "tokmap db g (tokmap db h s) = tokmap db (g \<circ> h) s"
proof (induction "length s" arbitrary: s rule: less_induct)
  case less
  show ?case
  proof (cases s rule: word_split [where db = db])
    case word
    then have "wordy db (h s)" using assms by blast
    then show ?thesis using word by (simp add: tokmap_wordy)
  next
    case (sep u c v)
    have hu: "wordy db (h u)" using assms sep(2) by blast
    have "tokmap db g (tokmap db h v) = tokmap db (g \<circ> h) v"
      by (rule less) (simp add: sep(1))
    then show ?thesis
      using sep hu by (simp add: tokmap_word_sep)
  qed
qed

lemma tokmap_sep:
  assumes "\<not> db_word db c"
  shows "tokmap db g (u @ c # v) = tokmap db g u @ c # tokmap db g v"
proof (induction "length u" arbitrary: u rule: less_induct)
  case less
  show ?case
  proof (cases u rule: word_split [where db = db])
    case word
    then show ?thesis using assms by (simp add: tokmap_word_sep tokmap_wordy)
  next
    case (sep w d r)
    have "tokmap db g (r @ c # v) = tokmap db g r @ c # tokmap db g v"
      by (rule less) (simp add: sep(1))
    then show ?thesis
      using sep by (simp add: tokmap_word_sep)
  qed
qed

lemma tokmap_id: "tokmap db (\<lambda>w. w) s = s"
proof (induction "length s" arbitrary: s rule: less_induct)
  case less
  show ?case
  proof (cases s rule: word_split [where db = db])
    case word
    then show ?thesis by (simp add: tokmap_wordy)
  next
    case (sep u c v)
    have "tokmap db (\<lambda>w. w) v = v" by (rule less) (simp add: sep(1))
    then show ?thesis using sep by (simp add: tokmap_word_sep)
  qed
qed

lemma tokmap_all:
  assumes g: "\<forall>w. wordy db w \<longrightarrow> (\<forall>c \<in> set w. P c) \<longrightarrow> (\<forall>c \<in> set (g w). P c)"
    and s: "\<forall>c \<in> set s. P c"
  shows "\<forall>c \<in> set (tokmap db g s). P c"
  using s
proof (induction "length s" arbitrary: s rule: less_induct)
  case less
  show ?case
  proof (cases s rule: word_split [where db = db])
    case word
    then show ?thesis using g less.prems by (simp add: tokmap_wordy)
  next
    case (sep u c v)
    have "\<forall>c \<in> set (tokmap db g v). P c"
      by (rule less(1)) (use less.prems sep(1) in auto)
    moreover have "\<forall>c \<in> set (g u). P c"
      using g sep(2) less.prems sep(1) by auto
    ultimately show ?thesis
      using sep less.prems by (auto simp: tokmap_word_sep)
  qed
qed

lemma tokmap_Nil_iff:
  assumes "\<forall>w. g w = [] \<longleftrightarrow> w = []"
  shows "tokmap db g s = [] \<longleftrightarrow> s = []"
proof (cases s rule: word_split [where db = db])
  case word
  then show ?thesis using assms by (simp add: tokmap_wordy)
next
  case (sep u c v)
  then show ?thesis by (simp add: tokmap_word_sep)
qed

lemma abbreviate_wordy: "wordy db (snd p) \<Longrightarrow> wordy db w \<Longrightarrow> wordy db (abbreviate p w)"
  by (simp add: abbreviate_def)

lemma fold_abbreviate_wordy:
  "\<forall>p \<in> set ps. wordy db (snd p) \<Longrightarrow> wordy db w \<Longrightarrow> wordy db (fold abbreviate ps w)"
  by (induction ps arbitrary: w) (simp_all add: abbreviate_wordy)

lemma fold_re_sub_word:
  assumes "\<forall>p \<in> set ps. wordy db (fst p) \<and> fst p \<noteq> [] \<and> wordy db (snd p)"
  shows "fold (\<lambda>(full, abbrev) n. re_sub_word db full abbrev False n) ps s
         = tokmap db (fold abbreviate ps) s"
  using assms
proof (induction ps arbitrary: s)
  case Nil
  show ?case by (simp add: tokmap_id id_def)
next
  case (Cons p ps)
  obtain full abbrev where p: "p = (full, abbrev)" by (cases p)
  have w: "wordy db full" "full \<noteq> []" "wordy db abbrev" using Cons.prems p by auto
  have "fold (\<lambda>(full, abbrev) n. re_sub_word db full abbrev False n) (p # ps) s
        = fold (\<lambda>(full, abbrev) n. re_sub_word db full abbrev False n) ps (tokmap db (abbreviate p) s)"
    by (simp add: p re_sub_word_tokmap [OF w(1,2)])
  also have "\<dots> = tokmap db (fold abbreviate ps) (tokmap db (abbreviate p) s)"
    by (rule Cons.IH) (use Cons.prems in simp)
  also have "\<dots> = tokmap db (fold abbreviate ps \<circ> abbreviate p) s"
    by (rule tokmap_compose) (simp add: abbreviate_wordy p w(3))
  finally show ?case by (simp add: comp_def)
qed

lemma abbreviate_hit: "abbreviate p (fst p) = snd p"
  by (simp add: abbreviate_def)

lemma abbreviate_miss: "w \<noteq> fst p \<Longrightarrow> abbreviate p w = w"
  by (simp add: abbreviate_def)

lemma fold_abbreviate_other:
  "w \<notin> fst ` set ps \<Longrightarrow> fold abbreviate ps w = w"
  by (induction ps arbitrary: w) (auto simp: abbreviate_def)

lemma fold_abbreviate_cases:
  assumes "fst ` set ps \<inter> snd ` set ps = {}"
  shows "fold abbreviate ps w = w \<or> fold abbreviate ps w \<in> snd ` set ps"
  using assms
proof (induction ps arbitrary: w)
  case Nil
  show ?case by simp
next
  case (Cons p ps)
  have disj: "fst ` set ps \<inter> snd ` set ps = {}" using Cons.prems by auto
  show ?case
  proof (cases "w = fst p")
    case True
    have "snd p \<notin> fst ` set ps" using Cons.prems by auto
    then have "fold abbreviate ps (snd p) = snd p" by (rule fold_abbreviate_other)
    then show ?thesis using True by (simp add: abbreviate_hit)
  next
    case False
    then show ?thesis using Cons.IH [OF disj, of w] by (auto simp: abbreviate_miss)
  qed
qed

lemma fold_abbreviate_idem:
  assumes "fst ` set ps \<inter> snd ` set ps = {}"
  shows "fold abbreviate ps (fold abbreviate ps w) = fold abbreviate ps w"
proof -
  from fold_abbreviate_cases [OF assms, of w]
  show ?thesis
  proof
    assume "fold abbreviate ps w = w"
    then show ?thesis by simp
  next
    assume "fold abbreviate ps w \<in> snd ` set ps"
    then have "fold abbreviate ps w \<notin> fst ` set ps" using assms by auto
    then show ?thesis by (rule fold_abbreviate_other)
  qed
qed

lemma fold_abbreviate_Nil_iff:
  assumes "[] \<notin> fst ` set ps" "[] \<notin> snd ` set ps"
  shows "fold abbreviate ps w = [] \<longleftrightarrow> w = []"
  using assms
proof (induction ps arbitrary: w)
  case Nil
  show ?case by simp
next
  case (Cons p ps)
  then show ?case by (auto simp: abbreviate_def)
qed

lemma split_with_Nil: "split_with db [] = []"
  by (simp add: split_with.simps [of db "[]"])

lemma split_with_space: "db_space db c \<Longrightarrow> split_with db (c # t) = split_with db t"
  by (simp add: split_with.simps [of db "c # t"] split_with.simps [of db t])

lemma split_with_field_sep:
  assumes "f \<noteq> []" "\<forall>x \<in> set f. \<not> db_space db x" "db_space db c"
  shows "split_with db (f @ c # t) = f # split_with db t"
proof -
  obtain a f' where f: "f = a # f'" using assms(1) by (cases f) auto
  have a: "\<not> db_space db a" and f': "\<forall>x \<in> set f'. \<not> db_space db x" using assms(2) f by auto
  have d: "dropWhile (db_space db) (f @ c # t) = a # (f' @ c # t)"
    using a by (simp add: f)
  have t1: "takeWhile (\<lambda>x. \<not> db_space db x) (f' @ c # t) = f'"
    using f' assms(3) by (simp add: takeWhile_append2)
  have d1: "dropWhile (\<lambda>x. \<not> db_space db x) (f' @ c # t) = c # t"
    using f' assms(3) by (simp add: dropWhile_append2)
  have "split_with db (f @ c # t) = (a # f') # split_with db (c # t)"
    by (subst split_with.simps) (simp only: d t1 d1 list.case)
  then show ?thesis using assms(3) by (simp add: f split_with_space)
qed

lemma split_with_field:
  assumes "f \<noteq> []" "\<forall>x \<in> set f. \<not> db_space db x"
  shows "split_with db f = [f]"
proof -
  obtain a f' where f: "f = a # f'" using assms(1) by (cases f) auto
  have a: "\<not> db_space db a" and f': "\<forall>x \<in> set f'. \<not> db_space db x" using assms(2) f by auto
  have d: "dropWhile (db_space db) f = a # f'"
    using a by (simp add: f)
  have t1: "takeWhile (\<lambda>x. \<not> db_space db x) f' = f'"
    and d1: "dropWhile (\<lambda>x. \<not> db_space db x) f' = []"
    using f' by simp_all
  have "split_with db f = (a # f') # split_with db []"
    by (subst split_with.simps) (simp only: d t1 d1 list.case)
  then show ?thesis by (simp add: f split_with_Nil)
qed

lemma space_split:
  obtains (empty) "s = []"
  | (space) c t where "s = c # t" "db_space db c"
  | (field) "s \<noteq> []" "\<forall>x \<in> set s. \<not> db_space db x"
  | (field_sep) f c t where "s = f @ c # t" "f \<noteq> []" "\<forall>x \<in> set f. \<not> db_space db x" "db_space db c"
proof (cases s)
  case Nil
  then show ?thesis by (rule empty)
next
  case (Cons a s')
  show ?thesis
  proof (cases "db_space db a")
    case True
    with Cons show ?thesis by (rule space)
  next
    case False
    let ?f = "takeWhile (\<lambda>x. \<not> db_space db x) s"
    have fne: "?f \<noteq> []" using False Cons by simp
    have fsp: "\<forall>x \<in> set ?f. \<not> db_space db x" by (auto dest: set_takeWhileD)
    show ?thesis
    proof (cases "dropWhile (\<lambda>x. \<not> db_space db x) s")
      case Nil
      then have "\<forall>x \<in> set s. \<not> db_space db x" by simp
      then show ?thesis using Cons by (intro field) auto
    next
      case d: (Cons c t)
      have "\<not> \<not> db_space db (hd (dropWhile (\<lambda>x. \<not> db_space db x) s))"
        by (rule hd_dropWhile) (simp only: d, simp)
      then have c: "db_space db c" unfolding d by simp
      have "s = ?f @ c # t"
        using takeWhile_dropWhile_id [of "\<lambda>x. \<not> db_space db x" s] unfolding d by simp
      then show ?thesis using fne fsp c by (rule field_sep)
    qed
  qed
qed

lemma split_with_nonempty: "\<forall>f \<in> set (split_with db s). f \<noteq> []"
proof (induction "length s" arbitrary: s rule: less_induct)
  case less
  show ?case
  proof (cases s rule: space_split [where db = db])
    case empty
    then show ?thesis by (simp add: split_with_Nil)
  next
    case (space c t)
    have "\<forall>f \<in> set (split_with db t). f \<noteq> []" by (rule less) (simp add: space(1))
    then show ?thesis using space by (simp add: split_with_space)
  next
    case field
    then show ?thesis by (simp add: split_with_field)
  next
    case (field_sep f c t)
    have "\<forall>f \<in> set (split_with db t). f \<noteq> []" by (rule less) (simp add: field_sep(1))
    then show ?thesis using field_sep by (simp add: split_with_field_sep)
  qed
qed

lemma join_Cons: "join sep (f # ws) = (if ws = [] then f else f @ sep @ join sep ws)"
  by (cases ws) simp_all

lemma join_Nil_iff: "\<forall>f \<in> set ws. f \<noteq> [] \<Longrightarrow> join sep ws = [] \<longleftrightarrow> ws = []"
  by (cases ws) (auto simp: join_Cons)

lemma collapse_Nil_iff: "collapse db t = [] \<longleftrightarrow> split_with db t = []"
  unfolding collapse_def by (rule join_Nil_iff) (rule split_with_nonempty)

lemma collapse_Nil: "collapse db [] = []"
  by (simp add: collapse_def split_with_Nil)

lemma collapse_space: "db_space db c \<Longrightarrow> collapse db (c # t) = collapse db t"
  by (simp add: collapse_def split_with_space)

lemma collapse_field: "f \<noteq> [] \<Longrightarrow> \<forall>x \<in> set f. \<not> db_space db x \<Longrightarrow> collapse db f = f"
  by (simp add: collapse_def split_with_field)

lemma collapse_field_sep:
  assumes "f \<noteq> []" "\<forall>x \<in> set f. \<not> db_space db x" "db_space db c"
  shows "collapse db (f @ c # t) = (if collapse db t = [] then f else f @ blank db # collapse db t)"
  using assms by (simp add: collapse_Nil_iff) (simp add: collapse_def split_with_field_sep join_Cons)

lemma wordy_no_space:
  assumes sw: "\<forall>c. db_space db c \<longrightarrow> \<not> db_word db c"
  shows "wordy db w \<Longrightarrow> \<forall>c \<in> set w. \<not> db_space db c"
  using sw by (auto simp: wordy_def)

lemma tokmap_field:
  assumes sw: "\<forall>c. db_space db c \<longrightarrow> \<not> db_word db c"
    and g1: "\<forall>w. wordy db w \<longrightarrow> wordy db (g w)" and g2: "\<forall>w. g w = [] \<longleftrightarrow> w = []"
    and f: "f \<noteq> []" "\<forall>x \<in> set f. \<not> db_space db x"
  shows "tokmap db g f \<noteq> [] \<and> (\<forall>x \<in> set (tokmap db g f). \<not> db_space db x)"
proof
  show "tokmap db g f \<noteq> []" using tokmap_Nil_iff [OF g2] f(1) by simp
  show "\<forall>x \<in> set (tokmap db g f). \<not> db_space db x"
  proof (rule tokmap_all [OF _ f(2)], intro allI impI)
    fix w assume "wordy db w"
    then have "wordy db (g w)" using g1 by blast
    then show "\<forall>c \<in> set (g w). \<not> db_space db c" by (rule wordy_no_space [OF sw])
  qed
qed

lemma tokmap_Nil: "g [] = [] \<Longrightarrow> tokmap db g [] = []"
  by (subst tokmap.simps) simp

lemma tokmap_nonword_Cons:
  assumes "g [] = []" "\<not> db_word db c"
  shows "tokmap db g (c # t) = c # tokmap db g t"
  using tokmap_sep [OF assms(2), of g "[]" t] assms(1) by (simp add: tokmap_Nil)

lemma tokmap_collapse:
  assumes sw: "\<forall>c. db_space db c \<longrightarrow> \<not> db_word db c" and bs: "db_space db (blank db)"
    and g1: "\<forall>w. wordy db w \<longrightarrow> wordy db (g w)" and g2: "\<forall>w. g w = [] \<longleftrightarrow> w = []"
  shows "tokmap db g (collapse db s) = collapse db (tokmap db g s)"
proof (induction "length s" arbitrary: s rule: less_induct)
  case less
  have g0: "g [] = []" using g2 by simp
  have bw: "\<not> db_word db (blank db)" using sw bs by blast
  show ?case
  proof (cases s rule: space_split [where db = db])
    case empty
    then show ?thesis by (simp add: collapse_Nil tokmap_Nil g0)
  next
    case (space c t)
    have ih: "tokmap db g (collapse db t) = collapse db (tokmap db g t)"
      by (rule less) (simp add: space(1))
    have "\<not> db_word db c" using sw space(2) by blast
    then have "tokmap db g s = c # tokmap db g t"
      unfolding space(1) using g0 by (intro tokmap_nonword_Cons)
    then show ?thesis
      using space ih by (simp add: collapse_space)
  next
    case field
    have "collapse db (tokmap db g s) = tokmap db g s"
      using tokmap_field [OF sw g1 g2 field] by (intro collapse_field) auto
    then show ?thesis using field by (simp add: collapse_field)
  next
    case (field_sep f c t)
    have ih: "tokmap db g (collapse db t) = collapse db (tokmap db g t)"
      by (rule less) (simp add: field_sep(1))
    have nw: "\<not> db_word db c" using sw field_sep(4) by blast
    have tf: "tokmap db g f \<noteq> []" "\<forall>x \<in> set (tokmap db g f). \<not> db_space db x"
      using tokmap_field [OF sw g1 g2 field_sep(2,3)] by auto
    have e: "collapse db (tokmap db g t) = [] \<longleftrightarrow> collapse db t = []"
      using tokmap_Nil_iff [OF g2, of db "collapse db t"] by (simp add: ih)
    have l: "collapse db (tokmap db g s) =
          (if collapse db t = [] then tokmap db g f
           else tokmap db g f @ blank db # collapse db (tokmap db g t))"
      unfolding field_sep(1) tokmap_sep [OF nw]
      by (simp add: collapse_field_sep [OF tf field_sep(4)] e)
    have r: "tokmap db g (collapse db s) =
          (if collapse db t = [] then tokmap db g f
           else tokmap db g f @ blank db # tokmap db g (collapse db t))"
      unfolding field_sep(1) collapse_field_sep [OF field_sep(2,3,4)]
      by (simp add: tokmap_sep [OF bw])
    show ?thesis by (simp add: l r ih)
  qed
qed

lemma collapse_shape:
  assumes bs: "db_space db (blank db)"
  shows "collapse db (collapse db s) = collapse db s
   \<and> (collapse db s \<noteq> [] \<longrightarrow> \<not> db_space db (hd (collapse db s)) \<and> \<not> db_space db (last (collapse db s)))
   \<and> set (collapse db s) \<subseteq> insert (blank db) (set s)"
proof (induction "length s" arbitrary: s rule: less_induct)
  case less
  show ?case
  proof (cases s rule: space_split [where db = db])
    case empty
    then show ?thesis by (simp add: collapse_Nil)
  next
    case (space c t)
    have "collapse db (collapse db t) = collapse db t
       \<and> (collapse db t \<noteq> [] \<longrightarrow> \<not> db_space db (hd (collapse db t)) \<and> \<not> db_space db (last (collapse db t)))
       \<and> set (collapse db t) \<subseteq> insert (blank db) (set t)"
      by (rule less) (simp add: space(1))
    then show ?thesis using space by (auto simp: collapse_space)
  next
    case field
    then have "collapse db s = s" by (simp add: collapse_field)
    moreover have "hd s \<in> set s" "last s \<in> set s" using field(1) by simp_all
    ultimately show ?thesis using field by auto
  next
    case (field_sep f c t)
    have ih: "collapse db (collapse db t) = collapse db t
       \<and> (collapse db t \<noteq> [] \<longrightarrow> \<not> db_space db (hd (collapse db t)) \<and> \<not> db_space db (last (collapse db t)))
       \<and> set (collapse db t) \<subseteq> insert (blank db) (set t)"
      by (rule less) (simp add: field_sep(1))
    have hf: "hd f \<in> set f" "last f \<in> set f" using field_sep(2) by simp_all
    show ?thesis
    proof (cases "collapse db t = []")
      case True
      then have c: "collapse db s = f"
        using field_sep by (simp add: collapse_field_sep)
      show ?thesis
        unfolding c using field_sep hf by (auto simp: collapse_field)
    next
      case False
      then have c: "collapse db s = f @ blank db # collapse db t"
        using field_sep by (simp add: collapse_field_sep)
      have "collapse db (f @ blank db # collapse db t) = f @ blank db # collapse db t"
        using False ih field_sep(2,3) by (simp add: collapse_field_sep [OF _ _ bs])
      moreover have "\<not> db_space db (hd (f @ blank db # collapse db t))"
        using field_sep(2,3) hf by simp
      moreover have "\<not> db_space db (last (f @ blank db # collapse db t))"
        using False ih by simp
      moreover have "set (f @ blank db # collapse db t) \<subseteq> insert (blank db) (set s)"
        using ih by (auto simp: field_sep(1))
      ultimately show ?thesis unfolding c by simp
    qed
  qed
qed

lemma strip_with_fixed:
  assumes "t \<noteq> [] \<longrightarrow> \<not> db_space db (hd t) \<and> \<not> db_space db (last t)"
  shows "strip_with db t = t"
proof (cases t)
  case Nil
  then show ?thesis by (simp add: strip_with_def)
next
  case (Cons a t')
  then have h: "\<not> db_space db (hd t)" and l: "\<not> db_space db (last t)" using assms by auto
  have d1: "dropWhile (db_space db) t = t" using h Cons by simp
  have "hd (rev t) = last t" using Cons by (simp add: hd_rev)
  then have "\<not> db_space db (hd (rev t))" using l by simp
  moreover have "rev t \<noteq> []" using Cons by simp
  ultimately have d2: "dropWhile (db_space db) (rev t) = rev t"
    by (cases "rev t") auto
  show ?thesis by (simp only: strip_with_def d1 d2 rev_rev_ident)
qed

lemma strip_with_subset: "set (strip_with db s) \<subseteq> set s"
proof -
  have "set (dropWhile (db_space db) (rev (dropWhile (db_space db) s)))
          \<subseteq> set (rev (dropWhile (db_space db) s))"
    by (auto dest: set_dropWhileD)
  also have "\<dots> \<subseteq> set s" by (auto dest: set_dropWhileD)
  finally show ?thesis by (simp add: strip_with_def)
qed

lemma upper_with_fixed: "\<forall>c \<in> set s. db_upper db c = [c] \<Longrightarrow> upper_with db s = s"
  unfolding upper_with_def by (induction s) simp_all

lemma upper_with_upper:
  assumes "\<forall>c. \<forall>d \<in> set (db_upper db c). db_upper db d = [d]"
  shows "\<forall>d \<in> set (upper_with db s). db_upper db d = [d]"
  using assms by (auto simp: upper_with_def)

lemma abbreviations_shape:
  "\<forall>p \<in> set abbreviations.
      set (fst p) \<subseteq> set capitals \<and> set (snd p) \<subseteq> set capitals
      \<and> 2 < length (fst p) \<and> length (snd p) = 2"
  by code_simp

lemma literal_wordy:
  assumes "consistent db" "set w \<subseteq> set capitals"
  shows "wordy db (literal db w)"
  using assms by (auto simp: consistent_def wordy_def literal_def)

lemma literal_upper:
  assumes "consistent db" "set w \<subseteq> set capitals"
  shows "\<forall>c \<in> set (literal db w). db_upper db c = [c]"
  using assms by (auto simp: consistent_def literal_def)

lemma table_entry:
  assumes "p \<in> set (table db)"
  obtains full abbrev where "p = (literal db full, literal db abbrev)" "(full, abbrev) \<in> set abbreviations"
  using assms by (auto simp: table_def)

lemma table_wordy:
  assumes "consistent db"
  shows "\<forall>p \<in> set (table db). wordy db (fst p) \<and> fst p \<noteq> [] \<and> wordy db (snd p)"
proof
  fix p assume "p \<in> set (table db)"
  then obtain full abbrev where p: "p = (literal db full, literal db abbrev)"
    and m: "(full, abbrev) \<in> set abbreviations"
    by (rule table_entry)
  from m abbreviations_shape
  have s: "set full \<subseteq> set capitals" "set abbrev \<subseteq> set capitals" "2 < length full"
    by fastforce+
  have "literal db full \<noteq> []" using s(3) by (auto simp: literal_def)
  then show "wordy db (fst p) \<and> fst p \<noteq> [] \<and> wordy db (snd p)"
    using literal_wordy [OF assms s(1)] literal_wordy [OF assms s(2)] by (simp add: p)
qed

lemma table_lengths:
  "\<forall>p \<in> set (table db). 2 < length (fst p) \<and> length (snd p) = 2"
proof
  fix p assume "p \<in> set (table db)"
  then obtain full abbrev where p: "p = (literal db full, literal db abbrev)"
    and m: "(full, abbrev) \<in> set abbreviations"
    by (rule table_entry)
  from m abbreviations_shape have "2 < length full" "length abbrev = 2"
    by fastforce+
  then show "2 < length (fst p) \<and> length (snd p) = 2"
    by (simp add: p literal_def)
qed

lemma table_disjoint: "fst ` set (table db) \<inter> snd ` set (table db) = {}"
proof (rule ccontr)
  assume "fst ` set (table db) \<inter> snd ` set (table db) \<noteq> {}"
  then obtain p q where "p \<in> set (table db)" "q \<in> set (table db)" "fst p = snd q"
    by auto
  then show False using table_lengths [of db] by (metis less_irrefl)
qed

lemma table_nonempty: "[] \<notin> fst ` set (table db)" "[] \<notin> snd ` set (table db)"
  using table_lengths [of db] by fastforce+

lemma table_upper:
  assumes "consistent db"
  shows "\<forall>p \<in> set (table db). \<forall>c \<in> set (snd p). db_upper db c = [c]"
proof
  fix p assume "p \<in> set (table db)"
  then obtain full abbrev where p: "p = (literal db full, literal db abbrev)"
    and m: "(full, abbrev) \<in> set abbreviations"
    by (rule table_entry)
  from m abbreviations_shape have "set abbrev \<subseteq> set capitals"
    by fastforce
  then show "\<forall>c \<in> set (snd p). db_upper db c = [c]"
    using literal_upper [OF assms] by (simp add: p)
qed

lemma sub_abbreviations_table:
  "sub_abbreviations db s = fold (\<lambda>(full, abbrev) n. re_sub_word db full abbrev False n) (table db) s"
  by (simp add: sub_abbreviations_def table_def fold_map comp_def split_def)

lemma sub_abbreviations_tokmap:
  assumes "consistent db"
  shows "sub_abbreviations db s = tokmap db (fold abbreviate (table db)) s"
  unfolding sub_abbreviations_table by (rule fold_re_sub_word) (rule table_wordy [OF assms])

lemma all_abbreviated_wordy:
  assumes "consistent db"
  shows "\<forall>w. wordy db w \<longrightarrow> wordy db (fold abbreviate (table db) w)"
  using table_wordy [OF assms] by (auto intro: fold_abbreviate_wordy)

lemma all_abbreviated_Nil: "\<forall>w. fold abbreviate (table db) w = [] \<longleftrightarrow> w = []"
  using fold_abbreviate_Nil_iff [OF table_nonempty] by blast

lemma all_abbreviated_upper:
  assumes "consistent db"
  shows "\<forall>w. wordy db w \<longrightarrow> (\<forall>c \<in> set w. db_upper db c = [c])
        \<longrightarrow> (\<forall>c \<in> set (fold abbreviate (table db) w). db_upper db c = [c])"
proof (intro allI impI)
  fix w assume "\<forall>c \<in> set w. db_upper db c = [c]"
  then show "\<forall>c \<in> set (fold abbreviate (table db) w). db_upper db c = [c]"
    using fold_abbreviate_cases [OF table_disjoint, of db w] table_upper [OF assms] by auto
qed

lemma sub_abbreviations_idem:
  assumes "consistent db"
  shows "sub_abbreviations db (sub_abbreviations db s) = sub_abbreviations db s"
proof -
  have "fold abbreviate (table db) \<circ> fold abbreviate (table db) = fold abbreviate (table db)"
    by (rule ext) (simp add: fold_abbreviate_idem [OF table_disjoint])
  then show ?thesis
    by (simp add: sub_abbreviations_tokmap [OF assms] tokmap_compose [OF all_abbreviated_wordy [OF assms]])
qed

lemma consistent_space_word: "consistent db \<Longrightarrow> \<forall>c. db_space db c \<longrightarrow> \<not> db_word db c"
  by (simp add: consistent_def)

lemma consistent_blank: "consistent db \<Longrightarrow> db_space db (blank db)" "consistent db \<Longrightarrow> db_upper db (blank db) = [blank db]"
  by (simp_all add: consistent_def blank_def)

lemma sub_abbreviations_collapse:
  assumes "consistent db"
  shows "sub_abbreviations db (collapse db s) = collapse db (sub_abbreviations db s)"
  unfolding sub_abbreviations_tokmap [OF assms]
  by (rule tokmap_collapse [OF consistent_space_word [OF assms] consistent_blank(1) [OF assms]
        all_abbreviated_wordy [OF assms] all_abbreviated_Nil])

lemma normalize_with_collapse:
  "x \<noteq> [] \<Longrightarrow> normalize_with db x = collapse db (sub_abbreviations db (strip_with db (upper_with db x)))"
  by (simp add: normalize_with_def collapse_def literal_def blank_def)

lemma normalize_with_upper:
  assumes "consistent db"
  shows "\<forall>c \<in> set (normalize_with db x). db_upper db c = [c]"
proof (cases "x = []")
  case True
  then show ?thesis by (simp add: normalize_with_def)
next
  case False
  let ?z0 = "strip_with db (upper_with db x)"
  have "\<forall>c \<in> set (upper_with db x). db_upper db c = [c]"
    by (rule upper_with_upper) (use assms in \<open>simp add: consistent_def\<close>)
  then have z0: "\<forall>c \<in> set ?z0. db_upper db c = [c]"
    using strip_with_subset [of db "upper_with db x"] by blast
  have "\<forall>c \<in> set (sub_abbreviations db ?z0). db_upper db c = [c]"
    unfolding sub_abbreviations_tokmap [OF assms]
    by (rule tokmap_all [OF all_abbreviated_upper [OF assms] z0])
  then have "\<forall>c \<in> set (collapse db (sub_abbreviations db ?z0)). db_upper db c = [c]"
    using collapse_shape [OF consistent_blank(1) [OF assms], of "sub_abbreviations db ?z0"]
      consistent_blank(2) [OF assms] by blast
  then show ?thesis
    using False by (simp add: normalize_with_collapse)
qed

lemma to_upper_idem: "to_upper (to_upper c) = to_upper c"
  by (auto simp: to_upper_def Let_def)

lemma consistent_ascii_chars: "consistent ascii_chars"
  unfolding consistent_def
proof (intro conjI)
  show "\<forall>c. \<forall>d \<in> set (db_upper ascii_chars c). db_upper ascii_chars d = [d]"
    by (simp add: ascii_chars_def to_upper_idem)
  show "\<forall>c. db_space ascii_chars c \<longrightarrow> \<not> db_word ascii_chars c"
    by (auto simp: ascii_chars_def is_space_def is_word_def Let_def)
  show "\<forall>c \<in> set capitals. db_word ascii_chars (db_ascii ascii_chars c)
          \<and> db_upper ascii_chars (db_ascii ascii_chars c) = [db_ascii ascii_chars c]"
    by (simp add: ascii_chars_def capitals_def is_word_def to_upper_def)
  show "db_space ascii_chars (db_ascii ascii_chars CHR '' '')"
    by (simp add: ascii_chars_def is_space_def)
  show "db_upper ascii_chars (db_ascii ascii_chars CHR '' '') = [db_ascii ascii_chars CHR '' '']"
    by (simp add: ascii_chars_def to_upper_def)
qed

lemma latin1_upper_idem: "\<forall>d \<in> set (latin1_upper n). latin1_upper d = [d]"
  by (auto simp: latin1_upper_def)

lemma consistent_latin1_chars: "consistent latin1_chars"
  unfolding consistent_def
proof (intro conjI)
  show "\<forall>c. \<forall>d \<in> set (db_upper latin1_chars c). db_upper latin1_chars d = [d]"
    using latin1_upper_idem by (simp add: latin1_chars_def)
  show "\<forall>c. db_space latin1_chars c \<longrightarrow> \<not> db_word latin1_chars c"
    by (auto simp: latin1_chars_def latin1_space_def latin1_word_def)
  show "\<forall>c \<in> set capitals. db_word latin1_chars (db_ascii latin1_chars c)
          \<and> db_upper latin1_chars (db_ascii latin1_chars c) = [db_ascii latin1_chars c]"
    by (simp add: latin1_chars_def capitals_def latin1_word_def latin1_upper_def)
  show "db_space latin1_chars (db_ascii latin1_chars CHR '' '')"
    by (simp add: latin1_chars_def latin1_space_def)
  show "db_upper latin1_chars (db_ascii latin1_chars CHR '' '') = [db_ascii latin1_chars CHR '' '']"
    by (simp add: latin1_chars_def latin1_upper_def)
qed

text \<open>
  C7. Normalizing a normalized street name changes nothing: for every string \<open>x\<close> over any
  characters, with any tables of \<open>upper\<close>, white space and word characters that are
  \<open>consistent\<close>, as those of Python are. The instances are the ASCII tables of the engine and
  the tables of the code points below 256, where an accented letter is upper-cased, the
  no-break space is stripped and a letter before \<open>STREET\<close> keeps it from being abbreviated.
\<close>

theorem normalize_idempotent:
  assumes "consistent db"
  shows "normalize_with db (normalize_with db x) = normalize_with db x"
proof (cases "normalize_with db x = []")
  case True
  then show ?thesis by (simp add: normalize_with_def)
next
  case False
  then have x: "x \<noteq> []" by (auto simp: normalize_with_def)
  let ?z = "sub_abbreviations db (strip_with db (upper_with db x))"
  note bs = consistent_blank(1) [OF assms]
  have y: "normalize_with db x = collapse db ?z"
    using x by (rule normalize_with_collapse)
  have up: "upper_with db (collapse db ?z) = collapse db ?z"
    using normalize_with_upper [OF assms, of x] unfolding y by (rule upper_with_fixed)
  have st: "strip_with db (collapse db ?z) = collapse db ?z"
    using collapse_shape [OF bs, of ?z] by (intro strip_with_fixed) blast
  have "normalize_with db (collapse db ?z)
          = collapse db (sub_abbreviations db (strip_with db (upper_with db (collapse db ?z))))"
    using False unfolding y by (rule normalize_with_collapse)
  also have "\<dots> = collapse db (sub_abbreviations db (collapse db ?z))"
    by (simp only: up st)
  also have "\<dots> = collapse db (collapse db (sub_abbreviations db ?z))"
    by (simp only: sub_abbreviations_collapse [OF assms])
  also have "\<dots> = collapse db (sub_abbreviations db ?z)"
    using collapse_shape [OF bs, of "sub_abbreviations db ?z"] by blast
  also have "\<dots> = collapse db ?z"
    by (simp only: sub_abbreviations_idem [OF assms])
  finally show ?thesis unfolding y .
qed

theorem normalize_idempotent_witness:
  "consistent ascii_chars
   \<and> normalize_street_name '' Main   Street '' = ''MAIN ST''
   \<and> normalize_street_name ''MAIN ST'' = ''MAIN ST''
   \<and> consistent latin1_chars
   \<and> normalize_with latin1_chars [160, 99, 97, 102, 233, 32, 32, 115, 116, 114, 101, 101, 116] = [67, 65, 70, 201, 32, 83, 84]
   \<and> normalize_with latin1_chars [67, 65, 70, 201, 32, 83, 84] = [67, 65, 70, 201, 32, 83, 84]
   \<and> normalize_with latin1_chars [233, 115, 116, 114, 101, 101, 116] = [201, 83, 84, 82, 69, 69, 84]
   \<and> normalize_with latin1_chars [201, 83, 84, 82, 69, 69, 84] = [201, 83, 84, 82, 69, 69, 84]"
proof -
  have a: "normalize_street_name '' Main   Street '' = ''MAIN ST''"
    by code_simp
  have b: "normalize_with latin1_chars [160, 99, 97, 102, 233, 32, 32, 115, 116, 114, 101, 101, 116] = [67, 65, 70, 201, 32, 83, 84]"
    by code_simp
  have c: "normalize_with latin1_chars [233, 115, 116, 114, 101, 101, 116] = [201, 83, 84, 82, 69, 69, 84]"
    by code_simp
  have a': "normalize_street_name ''MAIN ST'' = ''MAIN ST''"
    using normalize_idempotent [OF consistent_ascii_chars, of "'' Main   Street ''"]
    by (simp only: a normalize_street_name_def [symmetric])
  have b': "normalize_with latin1_chars [67, 65, 70, 201, 32, 83, 84] = [67, 65, 70, 201, 32, 83, 84]"
    using normalize_idempotent [OF consistent_latin1_chars,
        of "[160, 99, 97, 102, 233, 32, 32, 115, 116, 114, 101, 101, 116]"]
    by (simp only: b)
  have c': "normalize_with latin1_chars [201, 83, 84, 82, 69, 69, 84] = [201, 83, 84, 82, 69, 69, 84]"
    using normalize_idempotent [OF consistent_latin1_chars, of "[233, 115, 116, 114, 101, 101, 116]"]
    by (simp only: c)
  show ?thesis
    using consistent_ascii_chars consistent_latin1_chars a a' b b' c c' by (intro conjI)
qed

end
